theory Spec2Isabelle
  imports Complex_Main "HOL-Library.Word"
begin

section \<open>JavaScript numbers\<close>

text \<open>
  \<^verbatim>\<open>replicas\<close> and \<^verbatim>\<open>weight\<close> are JavaScript numbers: IEEE-754 binary64 values. A finite
  double is a rational, so a number is a rational or one of the three special values.
  Negative zero is identified with zero: \<^verbatim>\<open>Math.round\<close>, \<^verbatim>\<open>Math.max(1, _)\<close> and \<^verbatim>\<open><\<close>, the
  only consumers of these numbers in the ring, do not distinguish the two.
\<close>

datatype number = Num rat | NaN | PosInfinity | NegInfinity

definition pow2 :: "int \<Rightarrow> rat" where
  "pow2 k = (if 0 \<le> k then 2 ^ nat k else 1 / 2 ^ nat (- k))"

function bitLength :: "int \<Rightarrow> int" where
  "bitLength n = (if n \<le> 0 then 0 else 1 + bitLength (n div 2))"
  by pat_completeness auto
termination
  by (relation "measure nat") auto

declare bitLength.simps [simp del]

text \<open>\<open>ilog2 x\<close> is the exponent \<open>e\<close> with \<open>2\<^sup>e \<le> x < 2\<^sup>e\<^sup>+\<^sup>1\<close>, for positive \<open>x\<close>.\<close>

definition ilog2 :: "rat \<Rightarrow> int" where
  "ilog2 x = (if 1 \<le> x then bitLength \<lfloor>x\<rfloor> - 1 else - bitLength (\<lceil>1 / x\<rceil> - 1))"

definition roundTiesToEven :: "rat \<Rightarrow> int" where
  "roundTiesToEven x =
     (let f = \<lfloor>x\<rfloor>; d = x - of_int f
      in if d < 1 / 2 then f else if 1 / 2 < d then f + 1 else if even f then f else f + 1)"

text \<open>
  \<open>fl x\<close> is the double nearest to the exact value \<open>x\<close> (round to nearest, ties to even):
  53 significant bits, subnormals below \<open>2\<^sup>-\<^sup>1\<^sup>0\<^sup>2\<^sup>2\<close>, overflow to an infinity from \<open>2\<^sup>1\<^sup>0\<^sup>2\<^sup>4\<close>.
  A decimal literal of the source such as \<^verbatim>\<open>0.01\<close> denotes \<open>fl (1 / 100)\<close>.
\<close>

definition fl :: "rat \<Rightarrow> number" where
  "fl x =
     (if x = 0 then Num 0
      else let e = max (ilog2 \<bar>x\<bar>) (- 1022);
               ulp = pow2 (e - 52);
               y = of_int (roundTiesToEven (x / ulp)) * ulp
           in if pow2 1024 \<le> \<bar>y\<bar> then (if 0 < x then PosInfinity else NegInfinity)
              else Num y)"

text \<open>The operator \<^verbatim>\<open>*\<close> on numbers.\<close>

fun times_number :: "number \<Rightarrow> number \<Rightarrow> number" where
  "times_number NaN _ = NaN"
| "times_number _ NaN = NaN"
| "times_number (Num a) (Num b) = fl (a * b)"
| "times_number (Num a) PosInfinity =
     (if a = 0 then NaN else if 0 < a then PosInfinity else NegInfinity)"
| "times_number (Num a) NegInfinity =
     (if a = 0 then NaN else if 0 < a then NegInfinity else PosInfinity)"
| "times_number PosInfinity (Num b) =
     (if b = 0 then NaN else if 0 < b then PosInfinity else NegInfinity)"
| "times_number NegInfinity (Num b) =
     (if b = 0 then NaN else if 0 < b then NegInfinity else PosInfinity)"
| "times_number PosInfinity PosInfinity = PosInfinity"
| "times_number PosInfinity NegInfinity = NegInfinity"
| "times_number NegInfinity PosInfinity = NegInfinity"
| "times_number NegInfinity NegInfinity = PosInfinity"

text \<open>
  \<^verbatim>\<open>Math.round\<close>: the nearest integer, a tie going towards \<open>+\<infinity>\<close>; the special values are
  returned unchanged.
\<close>

fun Math_round :: "number \<Rightarrow> number" where
  "Math_round (Num q) = Num (of_int \<lfloor>q + 1 / 2\<rfloor>)"
| "Math_round x = x"

text \<open>\<^verbatim>\<open>Math.max\<close> of two numbers: \<^verbatim>\<open>NaN\<close> as soon as one argument is \<^verbatim>\<open>NaN\<close>.\<close>

fun Math_max :: "number \<Rightarrow> number \<Rightarrow> number" where
  "Math_max NaN _ = NaN"
| "Math_max _ NaN = NaN"
| "Math_max PosInfinity _ = PosInfinity"
| "Math_max _ PosInfinity = PosInfinity"
| "Math_max NegInfinity y = y"
| "Math_max x NegInfinity = x"
| "Math_max (Num a) (Num b) = Num (max a b)"

text \<open>The comparisons \<^verbatim>\<open><\<close> and \<^verbatim>\<open><=\<close> on numbers: false as soon as one side is \<^verbatim>\<open>NaN\<close>.\<close>

fun less_number :: "number \<Rightarrow> number \<Rightarrow> bool" where
  "less_number NaN _ = False"
| "less_number _ NaN = False"
| "less_number (Num a) (Num b) = (a < b)"
| "less_number _ NegInfinity = False"
| "less_number NegInfinity _ = True"
| "less_number PosInfinity _ = False"
| "less_number (Num a) PosInfinity = True"

fun less_eq_number :: "number \<Rightarrow> number \<Rightarrow> bool" where
  "less_eq_number NaN _ = False"
| "less_eq_number _ NaN = False"
| "less_eq_number (Num a) (Num b) = (a \<le> b)"
| "less_eq_number NegInfinity _ = True"
| "less_eq_number _ PosInfinity = True"
| "less_eq_number PosInfinity _ = False"
| "less_eq_number (Num a) NegInfinity = False"

section \<open>Strings\<close>

text \<open>The decimal rendering of a non-negative integer, as a template literal produces it.\<close>

definition digitChar :: "nat \<Rightarrow> char" where
  "digitChar d = ''0123456789'' ! d"

fun string_of_nat :: "nat \<Rightarrow> string" where
  "string_of_nat n =
     (if n < 10 then [digitChar n] else string_of_nat (n div 10) @ [digitChar (n mod 10)])"

declare string_of_nat.simps [simp del]

text \<open>\<^verbatim>\<open>BigInt.prototype.toString\<close>: decimal, with a sign for negative values.\<close>

definition bigint_toString :: "int \<Rightarrow> string" where
  "bigint_toString i = (if i < 0 then CHR ''-'' # string_of_nat (nat (- i)) else string_of_nat (nat i))"

section \<open>The hash-coordinate adapter\<close>

text \<open>
  The digest itself is Node's \<^verbatim>\<open>crypto\<close> module, which is not part of the repository: it is
  the parameter \<open>D\<close>, giving the digest bytes of an input under the algorithm of the given
  name. The ring is taken to be configured with an algorithm that \<^verbatim>\<open>crypto\<close> supports and
  whose digest is not empty, so that \<^verbatim>\<open>createHash\<close> and \<^verbatim>\<open>BigInt\<close> do not throw.
\<close>

type_synonym digest = "string \<Rightarrow> string \<Rightarrow> 8 word list"

definition hexChar :: "nat \<Rightarrow> char" where
  "hexChar d = ''0123456789abcdef'' ! d"

text \<open>The \<^verbatim>\<open>'hex'\<close> encoding of a byte sequence: two lower-case digits per byte.\<close>

definition hexEncode :: "8 word list \<Rightarrow> string" where
  "hexEncode bs = concat (map (\<lambda>b. [hexChar (unat b div 16), hexChar (unat b mod 16)]) bs)"

definition hexValue :: "char \<Rightarrow> int" where
  "hexValue c =
     (let n = of_char c :: int
      in if 48 \<le> n \<and> n \<le> 57 then n - 48
         else if 97 \<le> n \<and> n \<le> 102 then n - 87
         else if 65 \<le> n \<and> n \<le> 70 then n - 55
         else 0)"

text \<open>\<^verbatim>\<open>BigInt('0x' + s)\<close> for a string \<open>s\<close> of hexadecimal digits.\<close>

definition bigint_of_hex :: "string \<Rightarrow> int" where
  "bigint_of_hex s = foldl (\<lambda>acc c. 16 * acc + hexValue c) 0 s"

section \<open>The ring\<close>

record RingEntry =
  hash :: int
  vnode :: string
  node :: string

record RingSnapshot =
  snapshot_hash :: string
  snapshot_vnode :: string
  snapshot_node :: string

record ConsistentHashRing =
  replicas :: number
  hashFn :: string
  ring :: "RingEntry list"
  nodeMap :: "string \<rightharpoonup> string set"

datatype error = NodeExists string | TypeError

text \<open>
  The constructor: each option that is not given takes its default, 100 replicas and
  \<^verbatim>\<open>'md5'\<close>.
\<close>

definition new_ring :: "number option \<Rightarrow> string option \<Rightarrow> ConsistentHashRing" where
  "new_ring replicas_opt hashFn_opt =
     \<lparr>replicas = (case replicas_opt of None \<Rightarrow> Num 100 | Some n \<Rightarrow> n),
      hashFn = (case hashFn_opt of None \<Rightarrow> ''md5'' | Some f \<Rightarrow> f),
      ring = [],
      nodeMap = Map.empty\<rparr>"

definition hashToBigInt :: "digest \<Rightarrow> ConsistentHashRing \<Rightarrow> string \<Rightarrow> int" where
  "hashToBigInt D r input =
     (let h = hexEncode (D (hashFn r) input);
          hex64 = take 16 h
      in bigint_of_hex hex64)"

text \<open>
  Reading \<^verbatim>\<open>this.ring[i]\<close> and then a field of the entry: outside the array the read gives
  \<^verbatim>\<open>undefined\<close>, and the field access throws a \<^verbatim>\<open>TypeError\<close>.
\<close>

definition entryAt :: "RingEntry list \<Rightarrow> int \<Rightarrow> error + RingEntry" where
  "entryAt rg i = (if 0 \<le> i \<and> i < int (length rg) then Inr (rg ! nat i) else Inl TypeError)"

subsection \<open>Locating the owner\<close>

text \<open>
  The loop of \<^verbatim>\<open>_binarySearch\<close>. \<^verbatim>\<open>lo\<close> and \<^verbatim>\<open>hi\<close> are integers (\<^verbatim>\<open>hi\<close> may go down to
  \<open>-1\<close>); \<^verbatim>\<open>Math.floor((lo + hi) / 2)\<close> is integer division, which rounds down.
\<close>

function binarySearch_loop :: "RingEntry list \<Rightarrow> int \<Rightarrow> int \<Rightarrow> int \<Rightarrow> error + int" where
  "binarySearch_loop rg h lo hi =
     (if lo \<le> hi then
        (let mid = (lo + hi) div 2
         in case entryAt rg mid of
              Inl e \<Rightarrow> Inl e
            | Inr m \<Rightarrow>
                if hash m = h then Inr mid
                else if hash m < h then binarySearch_loop rg h (mid + 1) hi
                else binarySearch_loop rg h lo (mid - 1))
      else Inr lo)"
  by pat_completeness auto
termination
  by (relation "measure (\<lambda>(rg, h, lo, hi). nat (hi - lo + 1))") auto

declare binarySearch_loop.simps [simp del]

text \<open>\<^verbatim>\<open>_binarySearch\<close>: the result \<open>-1\<close> stands for "no entry".\<close>

definition binarySearch :: "ConsistentHashRing \<Rightarrow> int \<Rightarrow> error + int" where
  "binarySearch r h =
     (let lo = 0; hi = int (length (ring r)) - 1
      in if length (ring r) = 0 then Inr (- 1)
         else case entryAt (ring r) 0 of
                Inl e \<Rightarrow> Inl e
              | Inr e0 \<Rightarrow>
                  if h \<le> hash e0 then Inr 0
                  else case entryAt (ring r) hi of
                         Inl e \<Rightarrow> Inl e
                       | Inr eN \<Rightarrow>
                           if h > hash eN then Inr 0
                           else binarySearch_loop (ring r) h lo hi)"

subsection \<open>Adding and removing nodes\<close>

definition replicasForNode :: "ConsistentHashRing \<Rightarrow> number \<Rightarrow> number" where
  "replicasForNode r weight = Math_max (Num 1) (Math_round (times_number (replicas r) weight))"

definition vnodeId :: "string \<Rightarrow> nat \<Rightarrow> string" where
  "vnodeId nodeId i = nodeId @ ''#'' @ string_of_nat i"

definition placement :: "digest \<Rightarrow> ConsistentHashRing \<Rightarrow> string \<Rightarrow> nat \<Rightarrow> RingEntry" where
  "placement D r nodeId i =
     \<lparr>hash = hashToBigInt D r (vnodeId nodeId i), vnode = vnodeId nodeId i, node = nodeId\<rparr>"

text \<open>
  The \<^verbatim>\<open>for\<close> loop of \<^verbatim>\<open>addNode\<close>, from the counter \<open>i\<close> on: it pushes one entry per round
  and runs while \<^verbatim>\<open>i < replicasForNode\<close>, so never when the bound is \<^verbatim>\<open>NaN\<close> and forever
  when it is \<^verbatim>\<open>Infinity\<close>; \<open>None\<close> is the loop that does not return. The counter is exact
  and the array unbounded: the limits of the engine (array length, heap, the integers a
  double counts) are not modelled.
\<close>

partial_function (option) addNode_loop ::
    "digest \<Rightarrow> string \<Rightarrow> number \<Rightarrow> nat \<Rightarrow> ConsistentHashRing \<Rightarrow> string set
       \<Rightarrow> (ConsistentHashRing \<times> string set) option" where
  "addNode_loop D nodeId n i r vnodeSet =
     (if less_number (Num (of_nat i)) n then
        addNode_loop D nodeId n (i + 1)
          (r\<lparr>ring := ring r @ [placement D r nodeId i]\<rparr>)
          (insert (vnodeId nodeId i) vnodeSet)
      else Some (r, vnodeSet))"

text \<open>
  \<^verbatim>\<open>Array.prototype.sort\<close> with the comparator on \<^verbatim>\<open>hash\<close>: a stable sort (ECMAScript 2019),
  as \<^const>\<open>sort_key\<close> is.
\<close>

definition sortRing :: "RingEntry list \<Rightarrow> RingEntry list" where
  "sortRing rg = sort_key hash rg"

text \<open>
  \<^verbatim>\<open>addNode\<close> returns the state it leaves behind together with \<open>Inl\<close> of the error it
  throws or \<open>Inr ()\<close> when it returns normally. A call without a weight is the call with
  the weight \<open>Num 1\<close>.
\<close>

definition addNode ::
    "digest \<Rightarrow> ConsistentHashRing \<Rightarrow> string \<Rightarrow> number
       \<Rightarrow> ((error + unit) \<times> ConsistentHashRing) option" where
  "addNode D r nodeId weight =
     (if nodeMap r nodeId \<noteq> None then Some (Inl (NodeExists nodeId), r)
      else case addNode_loop D nodeId (replicasForNode r weight) 0 r {} of
             None \<Rightarrow> None
           | Some (r1, vnodeSet) \<Rightarrow>
               Some (Inr (),
                     r1\<lparr>ring := sortRing (ring r1),
                        nodeMap := (nodeMap r1)(nodeId \<mapsto> vnodeSet)\<rparr>))"

definition removeNode :: "ConsistentHashRing \<Rightarrow> string \<Rightarrow> bool \<times> ConsistentHashRing" where
  "removeNode r nodeId =
     (case nodeMap r nodeId of
        None \<Rightarrow> (False, r)
      | Some vnodeSet \<Rightarrow>
          (True, r\<lparr>ring := filter (\<lambda>entry. node entry \<noteq> nodeId) (ring r),
                   nodeMap := (nodeMap r)(nodeId := None)\<rparr>))"

subsection \<open>Queries\<close>

definition getNode :: "digest \<Rightarrow> ConsistentHashRing \<Rightarrow> string \<Rightarrow> error + string option" where
  "getNode D r key =
     (if length (ring r) = 0 then Inr None
      else let h = hashToBigInt D r key
           in case binarySearch r h of
                Inl e \<Rightarrow> Inl e
              | Inr idx \<Rightarrow>
                  if idx = - 1 then Inr None
                  else case entryAt (ring r) idx of
                         Inl e \<Rightarrow> Inl e
                       | Inr entry \<Rightarrow> Inr (Some (node entry)))"

text \<open>
  The \<^verbatim>\<open>while\<close> loop of \<^verbatim>\<open>getNodes\<close>, at position \<open>i\<close> with the nodes collected so far.
  \<^verbatim>\<open>count\<close> is a JavaScript number, compared with \<^verbatim>\<open>result.length\<close> as such.
  \<^verbatim>\<open>%\<close> is applied to a non-negative \<open>i + 1\<close> and a positive length, where it is \<open>mod\<close>.
\<close>

partial_function (option) getNodes_loop ::
    "RingEntry list \<Rightarrow> number \<Rightarrow> int \<Rightarrow> int \<Rightarrow> string list \<Rightarrow> string set
       \<Rightarrow> (error + string list) option" where
  "getNodes_loop rg count idx i result seen =
     (if less_number (Num (of_nat (length result))) count then
        (case entryAt rg i of
           Inl e \<Rightarrow> Some (Inl e)
         | Inr entry \<Rightarrow>
             (let nd = node entry;
                  result' = (if nd \<notin> seen then result @ [nd] else result);
                  seen' = (if nd \<notin> seen then insert nd seen else seen);
                  i' = (i + 1) mod int (length rg)
              in if i' = idx then Some (Inr result')
                 else getNodes_loop rg count idx i' result' seen'))
      else Some (Inr result))"

text \<open>\<^verbatim>\<open>getNodes\<close>; a call without a count is the call with the count \<open>Num 1\<close>.\<close>

definition getNodes ::
    "digest \<Rightarrow> ConsistentHashRing \<Rightarrow> string \<Rightarrow> number \<Rightarrow> (error + string list) option" where
  "getNodes D r key count =
     (if length (ring r) = 0 \<or> less_eq_number count (Num 0) then Some (Inr [])
      else let h = hashToBigInt D r key
           in case binarySearch r h of
                Inl e \<Rightarrow> Some (Inl e)
              | Inr idx \<Rightarrow>
                  if idx = - 1 then Some (Inr [])
                  else getNodes_loop (ring r) count idx idx [] {})"

definition getRingSnapshot :: "ConsistentHashRing \<Rightarrow> RingSnapshot list" where
  "getRingSnapshot r =
     map (\<lambda>e. \<lparr>snapshot_hash = bigint_toString (hash e), snapshot_vnode = vnode e,
                snapshot_node = node e\<rparr>) (ring r)"

subsection \<open>Sequences of calls\<close>

text \<open>
  A caller's sequence of mutating calls. An \<^verbatim>\<open>addNode\<close> that throws is caught by the caller
  and the sequence goes on from the state the call left; one that does not return ends
  the sequence without a state.
\<close>

datatype call = AddNode string number | RemoveNode string

fun apply_call :: "digest \<Rightarrow> ConsistentHashRing \<Rightarrow> call \<Rightarrow> ConsistentHashRing option" where
  "apply_call D r (AddNode nodeId weight) = map_option snd (addNode D r nodeId weight)"
| "apply_call D r (RemoveNode nodeId) = Some (snd (removeNode r nodeId))"

fun run :: "digest \<Rightarrow> ConsistentHashRing \<Rightarrow> call list \<Rightarrow> ConsistentHashRing option" where
  "run D r [] = Some r"
| "run D r (c # cs) = (case apply_call D r c of None \<Rightarrow> None | Some r' \<Rightarrow> run D r' cs)"

section \<open>Specification-side notions\<close>

text \<open>
  How many of the whole numbers \<open>0, 1, \<dots>\<close> are below a bound other than \<^verbatim>\<open>Infinity\<close>, none
  for \<^verbatim>\<open>NaN\<close>: the number of rounds of the \<^verbatim>\<open>for\<close> loop of \<^verbatim>\<open>addNode\<close>, and the length at
  which the \<^verbatim>\<open>while\<close> loop of \<^verbatim>\<open>getNodes\<close> stops collecting.
\<close>

definition loop_count :: "number \<Rightarrow> nat" where
  "loop_count n = (case n of Num q \<Rightarrow> nat \<lceil>q\<rceil> | _ \<Rightarrow> 0)"

text \<open>
  The owner index in the words of the specification: the index of the first entry whose
  coordinate is at least the given one, index 0 when there is none, and no owner on an
  empty ring.
\<close>

definition locateOwner :: "RingEntry list \<Rightarrow> int \<Rightarrow> nat option" where
  "locateOwner rg c =
     (if rg = [] then None
      else let k = length (takeWhile (\<lambda>e. \<not> c \<le> hash e) rg)
           in if k = length rg then Some 0 else Some k)"

text \<open>The first occurrence of each element of a list, in the order of the list.\<close>

fun first_occurrences :: "'a list \<Rightarrow> 'a list" where
  "first_occurrences [] = []"
| "first_occurrences (x # xs) = x # first_occurrences (filter (\<lambda>y. y \<noteq> x) xs)"

text \<open>
  A list cut once it holds \<open>count\<close> elements: for a whole number, after \<open>count\<close> of them; for
  a number between two whole numbers, after the larger; never for \<^verbatim>\<open>Infinity\<close>.
\<close>

definition take_count :: "number \<Rightarrow> 'a list \<Rightarrow> 'a list" where
  "take_count count xs = (case count of PosInfinity \<Rightarrow> xs | _ \<Rightarrow> take (loop_count count) xs)"

text \<open>
  The walk in the words of the specification: one revolution of the ring from the start
  index on, the owning node of each entry, nodes already collected skipped, until \<open>count\<close>
  nodes are collected.
\<close>

definition walkDistinctOwners :: "RingEntry list \<Rightarrow> nat \<Rightarrow> number \<Rightarrow> string list" where
  "walkDistinctOwners rg startIndex count =
     take_count count (first_occurrences (map node (rotate startIndex rg)))"

text \<open>The loop of \<^verbatim>\<open>getNodes\<close> over the nodes still to visit, as a function on lists.\<close>

fun collect :: "number \<Rightarrow> string list \<Rightarrow> string list \<Rightarrow> string list" where
  "collect count [] result = result"
| "collect count (nd # nds) result =
     (if less_number (Num (of_nat (length result))) count
      then collect count nds (if nd \<in> set result then result else result @ [nd])
      else result)"

text \<open>
  What holds of the ring and the registry between calls: the entries are sorted, every
  entry belongs to a registered node, and the registry holds, for each node, exactly the
  virtual ids of its entries.
\<close>

definition ringInvariant :: "ConsistentHashRing \<Rightarrow> bool" where
  "ringInvariant r \<longleftrightarrow>
     sorted (map hash (ring r)) \<and>
     node ` set (ring r) \<subseteq> dom (nodeMap r) \<and>
     finite (dom (nodeMap r)) \<and>
     (\<forall>n S. nodeMap r n = Some S \<longrightarrow> S = vnode ` {e \<in> set (ring r). node e = n})"

text \<open>A call whose replica count, under \<open>rep\<close> replicas per unit weight, is not \<^verbatim>\<open>NaN\<close>.\<close>

fun count_is_number :: "number \<Rightarrow> call \<Rightarrow> bool" where
  "count_is_number rep (AddNode nodeId weight) =
     (Math_max (Num 1) (Math_round (times_number rep weight)) \<noteq> NaN)"
| "count_is_number rep (RemoveNode nodeId) = True"

section \<open>Concrete rings\<close>

text \<open>A digest given by a table, all zero outside it.\<close>

definition table_digest :: "(string \<times> 8 word list) list \<Rightarrow> digest" where
  "table_digest tbl alg input =
     (case map_of tbl input of Some bs \<Rightarrow> bs | None \<Rightarrow> [0, 0, 0, 0, 0, 0, 0, 0])"

text \<open>
  Five nodes with one virtual node each, the virtual nodes of \<^verbatim>\<open>b\<close> and \<^verbatim>\<open>c\<close> on the same
  coordinate, which is also the coordinate of the key \<^verbatim>\<open>k\<close>.
\<close>

definition tie_digest :: digest where
  "tie_digest =
     table_digest
       [(''a#0'', [0, 0, 0, 0, 0, 0, 0, 1]), (''b#0'', [0, 0, 0, 0, 0, 0, 0, 5]),
        (''c#0'', [0, 0, 0, 0, 0, 0, 0, 5]), (''d#0'', [0, 0, 0, 0, 0, 0, 0, 6]),
        (''e#0'', [0, 0, 0, 0, 0, 0, 0, 7]), (''k'', [0, 0, 0, 0, 0, 0, 0, 5])]"

definition tie_calls :: "call list" where
  "tie_calls =
     [AddNode ''a'' (Num 1), AddNode ''b'' (Num 1), AddNode ''c'' (Num 1),
      AddNode ''d'' (Num 1), AddNode ''e'' (Num 1)]"

definition tie_ring :: ConsistentHashRing where
  "tie_ring =
     \<lparr>replicas = Num 1, hashFn = ''md5'',
      ring = [\<lparr>hash = 1, vnode = ''a#0'', node = ''a''\<rparr>,
              \<lparr>hash = 5, vnode = ''b#0'', node = ''b''\<rparr>,
              \<lparr>hash = 5, vnode = ''c#0'', node = ''c''\<rparr>,
              \<lparr>hash = 6, vnode = ''d#0'', node = ''d''\<rparr>,
              \<lparr>hash = 7, vnode = ''e#0'', node = ''e''\<rparr>],
      nodeMap = [''a'' \<mapsto> {''a#0''}, ''b'' \<mapsto> {''b#0''}, ''c'' \<mapsto> {''c#0''},
                 ''d'' \<mapsto> {''d#0''}, ''e'' \<mapsto> {''e#0''}]\<rparr>"

text \<open>Two nodes with one virtual node each.\<close>

definition demo_digest :: digest where
  "demo_digest =
     table_digest
       [(''a#0'', [0, 0, 0, 0, 0, 0, 0, 9]), (''b#0'', [0, 0, 0, 0, 0, 0, 0, 4]),
        (''k'', [0, 0, 0, 0, 0, 0, 0, 7])]"

definition demo_calls :: "call list" where
  "demo_calls = [AddNode ''a'' (Num 1), AddNode ''b'' (Num 1)]"

definition demo_ring :: ConsistentHashRing where
  "demo_ring =
     \<lparr>replicas = Num 1, hashFn = ''md5'',
      ring = [\<lparr>hash = 4, vnode = ''b#0'', node = ''b''\<rparr>,
              \<lparr>hash = 9, vnode = ''a#0'', node = ''a''\<rparr>],
      nodeMap = [''a'' \<mapsto> {''a#0''}, ''b'' \<mapsto> {''b#0''}]\<rparr>"

section \<open>The loop of addNode\<close>

lemma less_number_loop_count:
  "n \<noteq> PosInfinity \<Longrightarrow> less_number (Num (of_nat j)) n \<longleftrightarrow> j < loop_count n"
proof (cases n)
  case (Num q)
  have "(of_nat j < q) = (int j < \<lceil>q\<rceil>)"
    by (simp add: less_ceiling_iff)
  then show ?thesis using Num by (simp add: loop_count_def) linarith
qed (simp_all add: loop_count_def)

lemma hashToBigInt_ring_update [simp]:
  "hashToBigInt D (r\<lparr>ring := rg\<rparr>) = hashToBigInt D r"
  by (simp add: hashToBigInt_def fun_eq_iff)

lemma placement_ring_update [simp]:
  "placement D (r\<lparr>ring := rg\<rparr>) = placement D r"
  by (simp add: placement_def fun_eq_iff)

lemma addNode_loop_closed:
  assumes "n \<noteq> PosInfinity" and "i \<le> loop_count n"
  shows "addNode_loop D nodeId n i r vs =
           Some (r\<lparr>ring := ring r @ map (placement D r nodeId) [i..<loop_count n]\<rparr>,
                 vs \<union> vnodeId nodeId ` {i..<loop_count n})"
  using assms(2)
proof (induction "loop_count n - i" arbitrary: i r vs)
  case 0
  then have "i = loop_count n" by simp
  then have "\<not> less_number (Num (of_nat i)) n"
    using assms(1) by (simp add: less_number_loop_count)
  then show ?case
    using \<open>i = loop_count n\<close> by (subst addNode_loop.simps) simp
next
  case (Suc d)
  then have lt: "i < loop_count n" by simp
  then have c: "less_number (Num (of_nat i)) n"
    using assms(1) by (simp add: less_number_loop_count)
  have d: "d = loop_count n - Suc i" using Suc.hyps(2) by simp
  have le: "Suc i \<le> loop_count n" using lt by simp
  have upt: "[i..<loop_count n] = i # [Suc i..<loop_count n]"
    using lt by (simp add: upt_conv_Cons)
  have "{i..<loop_count n} = insert i {Suc i..<loop_count n}"
    using lt by auto
  then have img: "insert (vnodeId nodeId i) vs \<union> vnodeId nodeId ` {Suc i..<loop_count n}
               = vs \<union> vnodeId nodeId ` {i..<loop_count n}"
    by simp
  have "addNode_loop D nodeId n i r vs =
          addNode_loop D nodeId n (Suc i) (r\<lparr>ring := ring r @ [placement D r nodeId i]\<rparr>)
            (insert (vnodeId nodeId i) vs)"
    by (subst addNode_loop.simps) (simp add: c)
  also have "\<dots> = Some (r\<lparr>ring := ring r @ map (placement D r nodeId) [i..<loop_count n]\<rparr>,
                        vs \<union> vnodeId nodeId ` {i..<loop_count n})"
    by (simp only: Suc.hyps(1)[OF d le] img) (simp add: upt)
  finally show ?case .
qed

lemma addNode_loop_diverges: "addNode_loop D nodeId PosInfinity i r vs = None"
proof -
  have "n \<noteq> PosInfinity" if "addNode_loop D nodeId n i r vs = Some y" for n y
    by (rule addNode_loop.raw_induct[OF _ that, where P = "\<lambda>_ _ n _ _ _ _. n \<noteq> PosInfinity"])
       (auto split: if_splits)
  then show ?thesis by (cases "addNode_loop D nodeId PosInfinity i r vs") auto
qed

lemma Math_max_one_NaN: "Math_max (Num 1) x = NaN \<longleftrightarrow> x = NaN"
  by (cases x) simp_all

lemma Math_max_one_PosInfinity: "Math_max (Num 1) x = PosInfinity \<longleftrightarrow> x = PosInfinity"
  by (cases x) simp_all

lemma Math_round_NaN: "Math_round x = NaN \<longleftrightarrow> x = NaN"
  by (cases x) simp_all

lemma Math_max_one_Num:
  assumes "Math_max (Num 1) (Math_round x) = Num q"
  shows "\<exists>k. 1 \<le> k \<and> q = of_nat k \<and> loop_count (Num q) = k"
proof (cases x)
  case (Num a)
  define m where "m = max 1 \<lfloor>a + 1 / 2\<rfloor>"
  have q: "q = of_int m"
    using assms Num by (simp add: m_def of_int_max)
  have "1 \<le> m" by (simp add: m_def)
  then have "1 \<le> nat m" and "q = of_nat (nat m)" and "loop_count (Num q) = nat m"
    using q by (simp_all add: loop_count_def)
  then show ?thesis by blast
next
  case NegInfinity
  then have "q = 1" using assms by simp
  then show ?thesis by (intro exI[of _ 1]) (simp add: loop_count_def)
qed (use assms in simp_all)

lemma replicasForNode_Num:
  "replicasForNode r w = Num q \<Longrightarrow> \<exists>k. 1 \<le> k \<and> q = of_nat k \<and> loop_count (Num q) = k"
  unfolding replicasForNode_def by (rule Math_max_one_Num)

lemma replicasForNode_NegInfinity: "replicasForNode r w \<noteq> NegInfinity"
  unfolding replicasForNode_def by (cases "Math_round (times_number (replicas r) w)") simp_all

lemma addNode_exists:
  "nodeMap r nodeId \<noteq> None \<Longrightarrow> addNode D r nodeId w = Some (Inl (NodeExists nodeId), r)"
  by (simp add: addNode_def)

lemma addNode_fresh:
  assumes "nodeMap r nodeId = None" and "replicasForNode r w \<noteq> PosInfinity"
  shows "addNode D r nodeId w =
           Some (Inr (),
                 r\<lparr>ring := sortRing (ring r @ map (placement D r nodeId)
                                                  [0..<loop_count (replicasForNode r w)]),
                   nodeMap := (nodeMap r)(nodeId \<mapsto>
                                vnodeId nodeId ` {0..<loop_count (replicasForNode r w)})\<rparr>)"
  using assms by (simp add: addNode_def addNode_loop_closed)

lemma addNode_diverges:
  "nodeMap r nodeId = None \<Longrightarrow> replicasForNode r w = PosInfinity \<Longrightarrow> addNode D r nodeId w = None"
  by (simp add: addNode_def addNode_loop_diverges)

lemma addNode_fresh_no_error:
  "nodeMap r nodeId = None \<Longrightarrow> addNode D r nodeId w \<noteq> Some (Inl e, s)"
  by (auto simp: addNode_def split: option.splits)

section \<open>The invariant of the ring\<close>

lemma node_placement [simp]: "node (placement D r nodeId i) = nodeId"
  by (simp add: placement_def)

lemma vnode_placement [simp]: "vnode (placement D r nodeId i) = vnodeId nodeId i"
  by (simp add: placement_def)

lemma set_sortRing [simp]: "set (sortRing rg) = set rg"
  by (simp add: sortRing_def)

lemma sorted_sortRing [simp]: "sorted (map hash (sortRing rg))"
  by (simp add: sortRing_def)

lemma length_sortRing [simp]: "length (sortRing rg) = length rg"
  by (simp add: sortRing_def)

lemma ringInvariant_new_ring: "ringInvariant (new_ring a b)"
  by (simp add: ringInvariant_def new_ring_def)

lemma ringInvariant_add:
  assumes inv: "ringInvariant r" and fresh: "nodeMap r nodeId = None"
  shows "ringInvariant
           (r\<lparr>ring := sortRing (ring r @ map (placement D r nodeId) [0..<k]),
              nodeMap := (nodeMap r)(nodeId \<mapsto> vnodeId nodeId ` {0..<k})\<rparr>)"
proof -
  have none: "node e \<noteq> nodeId" if "e \<in> set (ring r)" for e
    using inv fresh that by (auto simp: ringInvariant_def)
  have own: "vnode ` {e \<in> set (ring r) \<union> placement D r nodeId ` {0..<k}. node e = nodeId}
               = vnodeId nodeId ` {0..<k}"
  proof -
    have "{e \<in> set (ring r) \<union> placement D r nodeId ` {0..<k}. node e = nodeId}
            = placement D r nodeId ` {0..<k}"
      using none by auto
    then show ?thesis by (simp add: image_image)
  qed
  have other: "{e \<in> set (ring r) \<union> placement D r nodeId ` {0..<k}. node e = n}
                 = {e \<in> set (ring r). node e = n}" if "n \<noteq> nodeId" for n
    using that by auto
  show ?thesis
    using inv own other by (auto simp: ringInvariant_def)
qed

lemma ringInvariant_removeNode:
  assumes "ringInvariant r"
  shows "ringInvariant (snd (removeNode r nodeId))"
proof (cases "nodeMap r nodeId")
  case None
  then show ?thesis using assms by (simp add: removeNode_def)
next
  case (Some S)
  have other: "{e \<in> set (ring r). node e \<noteq> nodeId \<and> node e = n} = {e \<in> set (ring r). node e = n}"
    if "n \<noteq> nodeId" for n
    using that by auto
  show ?thesis
    using assms Some other
    by (auto simp: removeNode_def ringInvariant_def sorted_filter)
qed

lemma ringInvariant_apply_call:
  assumes "ringInvariant r" and "apply_call D r c = Some r'"
  shows "ringInvariant r'"
proof (cases c)
  case (AddNode nodeId w)
  show ?thesis
  proof (cases "nodeMap r nodeId")
    case None
    show ?thesis
    proof (cases "replicasForNode r w = PosInfinity")
      case True
      then show ?thesis using assms AddNode None by (simp add: addNode_diverges)
    next
      case False
      then show ?thesis
        using assms AddNode None ringInvariant_add[OF assms(1) None]
        by (auto simp: addNode_fresh)
    qed
  next
    case (Some S)
    then show ?thesis using assms AddNode by (simp add: addNode_exists)
  qed
next
  case (RemoveNode nodeId)
  then show ?thesis using assms ringInvariant_removeNode[of r nodeId] by auto
qed

lemma ringInvariant_run:
  "ringInvariant r \<Longrightarrow> run D r calls = Some r' \<Longrightarrow> ringInvariant r'"
proof (induction calls arbitrary: r)
  case Nil
  then show ?case by simp
next
  case (Cons c cs)
  then show ?case
    by (auto split: option.splits dest: ringInvariant_apply_call)
qed

lemma reachable_invariant:
  "run D (new_ring a b) calls = Some r \<Longrightarrow> ringInvariant r"
  by (rule ringInvariant_run[OF ringInvariant_new_ring])

section \<open>The binary search\<close>

lemma entryAt_in_range:
  "0 \<le> i \<Longrightarrow> i < int (length rg) \<Longrightarrow> entryAt rg i = Inr (rg ! nat i)"
  by (simp add: entryAt_def)

lemma binarySearch_loop_range:
  assumes "0 \<le> lo" and "hi < int (length rg)" and "lo < int (length rg)"
    and "h \<le> hash (rg ! (length rg - 1))"
  shows "\<exists>idx. binarySearch_loop rg h lo hi = Inr idx \<and> lo \<le> idx \<and> idx < int (length rg)"
  using assms
proof (induction rg h lo hi rule: binarySearch_loop.induct)
  case (1 rg h lo hi)
  show ?case
  proof (cases "lo \<le> hi")
    case False
    then show ?thesis using "1.prems" by (subst binarySearch_loop.simps) simp
  next
    case True
    define mid where "mid = (lo + hi) div 2"
    have mid: "lo \<le> mid" "mid \<le> hi" using True by (simp_all add: mid_def)
    then have at: "entryAt rg mid = Inr (rg ! nat mid)"
      using "1.prems" by (simp add: entryAt_in_range)
    consider (eq) "hash (rg ! nat mid) = h" | (lt) "hash (rg ! nat mid) < h"
      | (gt) "h < hash (rg ! nat mid)" by linarith
    then show ?thesis
    proof cases
      case eq
      then show ?thesis
        using True mid "1.prems" at
        by (subst binarySearch_loop.simps) (simp add: mid_def[symmetric])
    next
      case lt
      have "nat mid \<noteq> length rg - 1" using lt "1.prems"(4) by auto
      then have "mid + 1 < int (length rg)" using mid "1.prems" by linarith
      then obtain idx where "binarySearch_loop rg h (mid + 1) hi = Inr idx"
          "mid + 1 \<le> idx" "idx < int (length rg)"
        using "1.IH"(1)[OF True mid_def at] lt mid "1.prems" by force
      then show ?thesis
        using True mid at lt
        by (subst binarySearch_loop.simps) (simp add: mid_def[symmetric])
    next
      case gt
      obtain idx where "binarySearch_loop rg h lo (mid - 1) = Inr idx"
          "lo \<le> idx" "idx < int (length rg)"
        using "1.IH"(2)[OF True mid_def at] gt mid "1.prems" by force
      then show ?thesis
        using True mid at gt
        by (subst binarySearch_loop.simps) (simp add: mid_def[symmetric])
    qed
  qed
qed

lemma binarySearch_empty: "ring r = [] \<Longrightarrow> binarySearch r h = Inr (- 1)"
  by (simp add: binarySearch_def)

lemma binarySearch_range:
  assumes "ring r \<noteq> []"
  shows "\<exists>idx. binarySearch r h = Inr (int idx) \<and> idx < length (ring r)"
proof -
  let ?rg = "ring r"
  have len: "0 < length ?rg" using assms by simp
  have at0: "entryAt ?rg 0 = Inr (?rg ! 0)" using len by (simp add: entryAt_def)
  have atN: "entryAt ?rg (int (length ?rg) - 1) = Inr (?rg ! (length ?rg - 1))"
    using len by (simp add: entryAt_def nat_diff_distrib')
  show ?thesis
  proof (cases "h \<le> hash (?rg ! 0) \<or> h > hash (?rg ! (length ?rg - 1))")
    case True
    then have "binarySearch r h = Inr 0"
      using len at0 atN by (auto simp: binarySearch_def Let_def)
    then show ?thesis using len by (intro exI[of _ 0]) simp
  next
    case False
    then have eq: "binarySearch r h = binarySearch_loop ?rg h 0 (int (length ?rg) - 1)"
      using len at0 atN by (auto simp: binarySearch_def Let_def)
    obtain idx where "binarySearch_loop ?rg h 0 (int (length ?rg) - 1) = Inr idx"
        "0 \<le> idx" "idx < int (length ?rg)"
      using binarySearch_loop_range[of 0 "int (length ?rg) - 1" ?rg h] len False by force
    then show ?thesis
      using eq by (intro exI[of _ "nat idx"]) simp
  qed
qed

lemma sorted_hash_nth:
  "sorted (map hash rg) \<Longrightarrow> i \<le> j \<Longrightarrow> j < length rg \<Longrightarrow> hash (rg ! i) \<le> hash (rg ! j)"
  using sorted_nth_mono[of "map hash rg" i j] by simp

lemma binarySearch_loop_sorted:
  assumes "sorted (map hash rg)" and "0 \<le> lo" and "hi < int (length rg)"
    and "lo \<le> int (length rg)"
    and "h \<le> hash (rg ! (length rg - 1))" and "rg \<noteq> []"
    and "\<forall>j. int j < lo \<longrightarrow> j < length rg \<longrightarrow> hash (rg ! j) < h"
    and "\<forall>j. hi < int j \<longrightarrow> j < length rg \<longrightarrow> h < hash (rg ! j)"
  shows "\<exists>idx. binarySearch_loop rg h lo hi = Inr (int idx) \<and> idx < length rg \<and>
               h \<le> hash (rg ! idx) \<and> (\<forall>j<idx. hash (rg ! j) \<le> h) \<and>
               (hash (rg ! idx) \<noteq> h \<longrightarrow> (\<forall>j<idx. hash (rg ! j) < h))"
  using assms
proof (induction rg h lo hi rule: binarySearch_loop.induct)
  case (1 rg h lo hi)
  note srt = "1.prems"(1) and below = "1.prems"(7) and above = "1.prems"(8)
  have len: "0 < length rg" using "1.prems"(6) by simp
  show ?case
  proof (cases "lo \<le> hi")
    case False
    have "lo \<noteq> int (length rg)"
    proof
      assume "lo = int (length rg)"
      then have "hash (rg ! (length rg - 1)) < h" using below len by simp
      then show False using "1.prems"(5) by simp
    qed
    then have lo: "nat lo < length rg" using "1.prems"(2,4) by linarith
    have res: "binarySearch_loop rg h lo hi = Inr (int (nat lo))"
      using False "1.prems"(2) by (subst binarySearch_loop.simps) simp
    have "h < hash (rg ! nat lo)" using above False lo "1.prems"(2) by simp
    moreover have "\<forall>j<nat lo. hash (rg ! j) < h" using below lo by simp
    ultimately show ?thesis using res lo by (intro exI[of _ "nat lo"]) auto
  next
    case True
    define mid where "mid = (lo + hi) div 2"
    have mid: "lo \<le> mid" "mid \<le> hi" using True by (simp_all add: mid_def)
    then have midr: "0 \<le> mid" "nat mid < length rg" using "1.prems"(2,3) by linarith+
    then have at: "entryAt rg mid = Inr (rg ! nat mid)"
      by (simp add: entryAt_def)
    consider (eq) "hash (rg ! nat mid) = h" | (lt) "hash (rg ! nat mid) < h"
      | (gt) "h < hash (rg ! nat mid)" by linarith
    then show ?thesis
    proof cases
      case eq
      have res: "binarySearch_loop rg h lo hi = Inr (int (nat mid))"
        using True at eq midr by (subst binarySearch_loop.simps) (simp add: mid_def[symmetric])
      have "\<forall>j<nat mid. hash (rg ! j) \<le> h"
        using sorted_hash_nth[OF srt _ midr(2)] eq by auto
      then show ?thesis using res eq midr by (intro exI[of _ "nat mid"]) auto
    next
      case lt
      have res: "binarySearch_loop rg h lo hi = binarySearch_loop rg h (mid + 1) hi"
        using True at lt by (subst binarySearch_loop.simps) (simp add: mid_def[symmetric])
      have b: "\<forall>j. int j < mid + 1 \<longrightarrow> j < length rg \<longrightarrow> hash (rg ! j) < h"
      proof (intro allI impI)
        fix j assume "int j < mid + 1" "j < length rg"
        then have "j \<le> nat mid" by linarith
        from sorted_hash_nth[OF srt this midr(2)] lt show "hash (rg ! j) < h" by simp
      qed
      have "mid + 1 \<le> int (length rg)" "0 \<le> mid + 1" using midr by linarith+
      from "1.IH"(1)[OF True mid_def at _ lt srt this(2) "1.prems"(3) this(1) "1.prems"(5,6) b above]
      show ?thesis using res lt by simp
    next
      case gt
      have res: "binarySearch_loop rg h lo hi = binarySearch_loop rg h lo (mid - 1)"
        using True at gt by (subst binarySearch_loop.simps) (simp add: mid_def[symmetric])
      have a: "\<forall>j. mid - 1 < int j \<longrightarrow> j < length rg \<longrightarrow> h < hash (rg ! j)"
      proof (intro allI impI)
        fix j assume "mid - 1 < int j" and j: "j < length rg"
        then have "nat mid \<le> j" by linarith
        from sorted_hash_nth[OF srt this j] gt show "h < hash (rg ! j)" by simp
      qed
      have "mid - 1 < int (length rg)" using midr by linarith
      from "1.IH"(2)[OF True mid_def at _ _ srt "1.prems"(2) this "1.prems"(4,5,6) below a]
      show ?thesis using res gt by simp
    qed
  qed
qed

lemma locateOwner_first:
  assumes "i < length rg" and "c \<le> hash (rg ! i)" and "\<forall>j<i. hash (rg ! j) < c"
  shows "locateOwner rg c = Some i"
proof -
  have "takeWhile (\<lambda>e. \<not> c \<le> hash e) rg = take i rg"
    using assms by (intro takeWhile_eq_take_P_nth) auto
  then have "length (takeWhile (\<lambda>e. \<not> c \<le> hash e) rg) = i"
    using assms(1) by simp
  then show ?thesis using assms(1) by (auto simp: locateOwner_def)
qed

lemma locateOwner_wrap:
  assumes "rg \<noteq> []" and "\<forall>e\<in>set rg. hash e < c"
  shows "locateOwner rg c = Some 0"
proof -
  have tw: "takeWhile (\<lambda>e. \<not> c \<le> hash e) rg = rg"
    using assms(2) by (intro takeWhile_eq_all_conv[THEN iffD2]) auto
  show ?thesis unfolding locateOwner_def Let_def tw using assms(1) by simp
qed

lemma locateOwner_props:
  assumes "locateOwner rg c = Some k" and "\<exists>e\<in>set rg. c \<le> hash e"
  shows "k < length rg \<and> c \<le> hash (rg ! k) \<and> (\<forall>j<k. hash (rg ! j) < c)"
proof -
  let ?P = "\<lambda>e. \<not> c \<le> hash e"
  let ?k = "length (takeWhile ?P rg)"
  have "takeWhile ?P rg \<noteq> rg"
    using assms(2) by (auto simp: takeWhile_eq_all_conv)
  then have lt: "?k < length rg"
    by (metis length_takeWhile_le le_neq_implies_less takeWhile_eq_take take_all_iff order_refl)
  then have k: "k = ?k" using assms(1) by (auto simp: locateOwner_def Let_def split: if_splits)
  have "\<not> ?P (rg ! ?k)" using lt by (rule nth_length_takeWhile)
  then have "c \<le> hash (rg ! ?k)" by simp
  moreover have "hash (rg ! j) < c" if "j < ?k" for j
  proof -
    have "?P (rg ! j)" using that by (metis nth_mem set_takeWhileD takeWhile_nth)
    then show ?thesis by simp
  qed
  ultimately show ?thesis using lt k by blast
qed

lemma binarySearch_sorted:
  assumes srt: "sorted (map hash (ring r))" and ne: "ring r \<noteq> []"
  shows "\<exists>idx k. binarySearch r h = Inr (int idx) \<and> locateOwner (ring r) h = Some k \<and>
                 idx < length (ring r) \<and> k \<le> idx \<and> hash (ring r ! idx) = hash (ring r ! k) \<and>
                 (distinct (map hash (ring r)) \<longrightarrow> idx = k)"
proof -
  let ?rg = "ring r"
  have len: "0 < length ?rg" using ne by simp
  have at0: "entryAt ?rg 0 = Inr (?rg ! 0)" using len by (simp add: entryAt_def)
  have atN: "entryAt ?rg (int (length ?rg) - 1) = Inr (?rg ! (length ?rg - 1))"
    using len by (simp add: entryAt_def nat_diff_distrib')
  consider (first) "h \<le> hash (?rg ! 0)"
    | (wrap) "\<not> h \<le> hash (?rg ! 0)" "h > hash (?rg ! (length ?rg - 1))"
    | (search) "\<not> h \<le> hash (?rg ! 0)" "h \<le> hash (?rg ! (length ?rg - 1))"
    by linarith
  then show ?thesis
  proof cases
    case first
    then have "binarySearch r h = Inr (int 0)"
      using len at0 by (simp add: binarySearch_def Let_def)
    moreover have "locateOwner ?rg h = Some 0"
      using first len by (intro locateOwner_first) auto
    ultimately show ?thesis using len by blast
  next
    case wrap
    then have "binarySearch r h = Inr (int 0)"
      using len at0 atN by (simp add: binarySearch_def Let_def)
    moreover have "\<forall>e\<in>set ?rg. hash e < h"
    proof
      fix e assume "e \<in> set ?rg"
      then obtain i where i: "i < length ?rg" "e = ?rg ! i" by (auto simp: in_set_conv_nth)
      then have "i \<le> length ?rg - 1" "length ?rg - 1 < length ?rg" by linarith+
      from sorted_hash_nth[OF srt this] show "hash e < h"
        using wrap(2) i(2) by simp
    qed
    then have "locateOwner ?rg h = Some 0" using ne by (rule locateOwner_wrap[rotated])
    ultimately show ?thesis using len by blast
  next
    case search
    then have eq: "binarySearch r h = binarySearch_loop ?rg h 0 (int (length ?rg) - 1)"
      using len at0 atN by (simp add: binarySearch_def Let_def)
    obtain idx where idx: "binarySearch_loop ?rg h 0 (int (length ?rg) - 1) = Inr (int idx)"
        "idx < length ?rg" "h \<le> hash (?rg ! idx)" "\<forall>j<idx. hash (?rg ! j) \<le> h"
        "hash (?rg ! idx) \<noteq> h \<longrightarrow> (\<forall>j<idx. hash (?rg ! j) < h)"
      using binarySearch_loop_sorted[OF srt, of 0 "int (length ?rg) - 1" h] search(2) ne
      by auto
    have "\<exists>e\<in>set ?rg. h \<le> hash e" using idx(2,3) by (meson nth_mem)
    moreover obtain k where k: "locateOwner ?rg h = Some k"
      using ne by (cases "locateOwner ?rg h") (auto simp: locateOwner_def Let_def split: if_splits)
    ultimately have kp: "k < length ?rg" "h \<le> hash (?rg ! k)" "\<forall>j<k. hash (?rg ! j) < h"
      using locateOwner_props by blast+
    have le: "k \<le> idx" using kp(3) idx(3) by (meson not_le_imp_less not_less)
    have same: "hash (?rg ! idx) = hash (?rg ! k)"
    proof (cases "hash (?rg ! idx) = h")
      case True
      then show ?thesis using sorted_hash_nth[OF srt le idx(2)] kp(2) by simp
    next
      case False
      then have "\<not> k < idx" using idx(5) kp(2) by force
      then show ?thesis using le by simp
    qed
    have "idx = k" if "distinct (map hash ?rg)"
      using that same idx(2) kp(1) nth_eq_iff_index_eq[of "map hash ?rg" idx k] by simp
    then show ?thesis using eq idx(1,2) k le same by auto
  qed
qed

section \<open>The queries\<close>

lemma getNode_empty: "ring r = [] \<Longrightarrow> getNode D r key = Inr None"
  by (simp add: getNode_def)

lemma getNode_owner:
  assumes "ring r \<noteq> []" and "binarySearch r (hashToBigInt D r key) = Inr (int idx)"
    and "idx < length (ring r)"
  shows "getNode D r key = Inr (Some (node (ring r ! idx)))"
  using assms by (simp add: getNode_def entryAt_def)

lemma collect_prefix: "\<exists>ys. collect count nds result = result @ ys"
proof (induction nds arbitrary: result)
  case Nil
  then show ?case by simp
next
  case (Cons nd nds)
  show ?case
  proof (cases "less_number (Num (of_nat (length result))) count")
    case False
    then show ?thesis by simp
  next
    case True
    obtain ys where "collect count nds (if nd \<in> set result then result else result @ [nd])
                       = (if nd \<in> set result then result else result @ [nd]) @ ys"
      using Cons.IH by blast
    then show ?thesis using True by (cases "nd \<in> set result") auto
  qed
qed

lemma collect_distinct: "distinct result \<Longrightarrow> distinct (collect count nds result)"
  by (induction nds arbitrary: result) auto

lemma collect_set: "set (collect count nds result) \<subseteq> set result \<union> set nds"
proof (induction nds arbitrary: result)
  case Nil
  then show ?case by simp
next
  case (Cons nd nds)
  have "set (collect count nds (if nd \<in> set result then result else result @ [nd]))
          \<subseteq> set (if nd \<in> set result then result else result @ [nd]) \<union> set nds"
    by (rule Cons.IH)
  then show ?case by (auto split: if_splits)
qed

lemma filter_fresh_append:
  "filter (\<lambda>x. x \<notin> set (result @ [nd])) nds
     = filter (\<lambda>y. y \<noteq> nd) (filter (\<lambda>x. x \<notin> set result) nds)"
  by (induction nds) auto

lemma collect_bounded:
  assumes "count \<noteq> PosInfinity"
  shows "collect count nds result =
           (if loop_count count \<le> length result then result
            else take (loop_count count)
                   (result @ first_occurrences (filter (\<lambda>x. x \<notin> set result) nds)))"
proof (induction nds arbitrary: result)
  case Nil
  then show ?case by simp
next
  case (Cons nd nds)
  have test: "less_number (Num (of_nat (length xs))) count \<longleftrightarrow> length xs < loop_count count"
    for xs :: "string list"
    using assms by (rule less_number_loop_count)
  show ?case
  proof (cases "length result < loop_count count")
    case False
    then show ?thesis by (simp add: test)
  next
    case True
    show ?thesis
    proof (cases "nd \<in> set result")
      case in_result: True
      then show ?thesis using True Cons.IH[of result] by (simp add: test)
    next
      case fresh: False
      have "collect count (nd # nds) result = collect count nds (result @ [nd])"
        using True fresh by (simp add: test)
      also have "\<dots> = (if loop_count count \<le> length (result @ [nd]) then result @ [nd]
                        else take (loop_count count)
                          ((result @ [nd]) @
                           first_occurrences (filter (\<lambda>x. x \<notin> set (result @ [nd])) nds)))"
        by (rule Cons.IH)
      also have "\<dots> = take (loop_count count)
                         (result @ first_occurrences (filter (\<lambda>x. x \<notin> set result) (nd # nds)))"
      proof (cases "loop_count count \<le> length (result @ [nd])")
        case le: True
        then have "loop_count count = Suc (length result)" using True by simp
        then show ?thesis using le fresh by simp
      next
        case False
        then show ?thesis using fresh by (simp add: filter_fresh_append del: set_append)
      qed
      finally show ?thesis using True by simp
    qed
  qed
qed

lemma collect_unbounded:
  "collect PosInfinity nds result =
     result @ first_occurrences (filter (\<lambda>x. x \<notin> set result) nds)"
proof (induction nds arbitrary: result)
  case Nil
  then show ?case by simp
next
  case (Cons nd nds)
  show ?case
  proof (cases "nd \<in> set result")
    case True
    then show ?thesis using Cons.IH[of result] by simp
  next
    case False
    have "collect PosInfinity (nd # nds) result = collect PosInfinity nds (result @ [nd])"
      using False by simp
    also have "\<dots> = (result @ [nd]) @
                       first_occurrences (filter (\<lambda>x. x \<notin> set (result @ [nd])) nds)"
      by (rule Cons.IH)
    finally show ?thesis using False by (simp add: filter_fresh_append del: set_append)
  qed
qed

lemma collect_walk: "collect count nds [] = take_count count (first_occurrences nds)"
proof (cases "count = PosInfinity")
  case True
  then show ?thesis by (simp add: collect_unbounded take_count_def)
next
  case False
  then have "collect count nds [] = take (loop_count count) (first_occurrences nds)"
    by (simp add: collect_bounded)
  then show ?thesis using False by (cases count) (simp_all add: take_count_def)
qed

lemma length_take_count_Num:
  assumes "0 < q"
  shows "rat_of_nat (length (take_count (Num q) xs)) < q + 1"
proof -
  have "length (take_count (Num q) xs) \<le> nat \<lceil>q\<rceil>"
    by (simp add: take_count_def loop_count_def)
  then have "rat_of_nat (length (take_count (Num q) xs)) \<le> rat_of_nat (nat \<lceil>q\<rceil>)"
    by (simp only: of_nat_le_iff)
  also have "\<dots> = of_int \<lceil>q\<rceil>"
    using assms by (simp add: less_imp_le)
  also have "\<dots> < q + 1" by linarith
  finally show ?thesis .
qed

lemma length_take_count_whole:
  assumes "0 < c"
  shows "int (length (take_count (Num (of_int c)) xs)) \<le> c"
proof -
  have "length (take_count (Num (of_int c)) xs) \<le> nat c"
    by (simp add: take_count_def loop_count_def)
  then show ?thesis using assms by linarith
qed

lemma getNodes_loop_collect:
  assumes "idx < length rg" and "k < length rg" and "seen = set result"
  shows "getNodes_loop rg count (int idx) (int ((idx + k) mod length rg)) result seen =
           Some (Inr (collect count (map node (drop k (rotate idx rg))) result))"
  using assms(2,3)
proof (induction "length rg - k" arbitrary: k result seen)
  case 0
  then show ?case by simp
next
  case (Suc d)
  let ?len = "length rg"
  let ?i = "(idx + k) mod ?len"
  let ?nd = "node (rg ! ?i)"
  let ?result' = "if ?nd \<in> set result then result else result @ [?nd]"
  have len: "0 < ?len" using Suc.prems(1) by (cases rg) simp_all
  have at: "entryAt rg (int ?i) = Inr (rg ! ?i)"
    using len by (simp add: entryAt_def)
  have drop: "map node (drop k (rotate idx rg)) = ?nd # map node (drop (Suc k) (rotate idx rg))"
    using Suc.prems(1) by (simp add: Cons_nth_drop_Suc[symmetric] nth_rotate)
  have next_i: "(int ?i + 1) mod int ?len = int ((idx + Suc k) mod ?len)"
  proof -
    have "(int ?i + 1) mod int ?len = (int (idx + k) mod int ?len + 1) mod int ?len"
      by (simp add: zmod_int)
    also have "\<dots> = (int (idx + k) + 1) mod int ?len"
      by (rule mod_add_left_eq)
    also have "\<dots> = int ((idx + Suc k) mod ?len)"
      by (simp add: zmod_int add.commute add.left_commute)
    finally show ?thesis .
  qed
  show ?case
  proof (cases "less_number (Num (of_nat (length result))) count")
    case False
    then show ?thesis
      by (subst getNodes_loop.simps) (simp add: drop)
  next
    case True
    show ?thesis
    proof (cases "Suc k = ?len")
      case last: True
      then have "(idx + Suc k) mod ?len = idx" using assms(1) by simp
      then have wrapped: "(int ?i + 1) mod int ?len = int idx" using next_i by simp
      have "drop (Suc k) (rotate idx rg) = []" using last by simp
      then have "collect count (map node (drop k (rotate idx rg))) result = ?result'"
        using True drop by simp
      then show ?thesis
        using True at wrapped Suc.prems(2)
        by (subst getNodes_loop.simps) (simp add: Let_def)
    next
      case more: False
      then have k': "Suc k < ?len" using Suc.prems(1) by simp
      have "(idx + Suc k) mod ?len \<noteq> idx"
      proof (cases "idx + Suc k < ?len")
        case True
        then show ?thesis by simp
      next
        case False
        then have "(idx + Suc k) mod ?len = idx + Suc k - ?len"
          using assms(1) k' by (simp add: mod_if)
        then show ?thesis using k' False by simp
      qed
      then have away: "(int ?i + 1) mod int ?len \<noteq> int idx" using next_i by simp
      have d: "d = ?len - Suc k" using Suc.hyps(2) by simp
      have seen': "(if ?nd \<notin> seen then insert ?nd seen else seen) = set ?result'"
        using Suc.prems(2) by auto
      have res': "(if ?nd \<notin> seen then result @ [?nd] else result) = ?result'"
        using Suc.prems(2) by auto
      have "getNodes_loop rg count (int idx) (int ?i) result seen =
              getNodes_loop rg count (int idx) (int ((idx + Suc k) mod ?len)) ?result' (set ?result')"
        using True at away
        by (subst getNodes_loop.simps) (simp only: Let_def sum.case if_True if_False next_i seen' res')
      also have "\<dots> = Some (Inr (collect count (map node (drop (Suc k) (rotate idx rg))) ?result'))"
        by (rule Suc.hyps(1)[OF d k' refl])
      also have "\<dots> = Some (Inr (collect count (map node (drop k (rotate idx rg))) result))"
        using True drop by simp
      finally show ?thesis .
    qed
  qed
qed

lemma getNodes_nonempty:
  assumes "ring r \<noteq> []" and "\<not> less_eq_number count (Num 0)"
    and "binarySearch r (hashToBigInt D r key) = Inr (int idx)" and "idx < length (ring r)"
  shows "getNodes D r key count = Some (Inr (walkDistinctOwners (ring r) idx count))"
proof -
  have "getNodes D r key count = getNodes_loop (ring r) count (int idx) (int idx) [] {}"
    using assms by (simp add: getNodes_def)
  also have "\<dots> = Some (Inr (collect count (map node (drop 0 (rotate idx (ring r)))) []))"
    using getNodes_loop_collect[OF assms(4), of 0 "{}" "[]" count] assms(1,4) by simp
  finally show ?thesis by (simp add: collect_walk walkDistinctOwners_def)
qed

lemma getNodes_trivial:
  "ring r = [] \<or> less_eq_number count (Num 0) \<Longrightarrow> getNodes D r key count = Some (Inr [])"
  by (auto simp: getNodes_def)

section \<open>Sequences of calls and the registry\<close>

lemma apply_call_cases:
  assumes "apply_call D r c = Some r'"
  obtains (exists) nodeId w where "c = AddNode nodeId w" "nodeMap r nodeId \<noteq> None" "r' = r"
  | (added) nodeId w q k where "c = AddNode nodeId w" "nodeMap r nodeId = None"
      "replicasForNode r w = Num q" "1 \<le> k" "q = of_nat k"
      "r' = r\<lparr>ring := sortRing (ring r @ map (placement D r nodeId) [0..<k]),
                nodeMap := (nodeMap r)(nodeId \<mapsto> vnodeId nodeId ` {0..<k})\<rparr>"
  | (ghost) nodeId w where "c = AddNode nodeId w" "nodeMap r nodeId = None"
      "replicasForNode r w = NaN"
      "r' = r\<lparr>ring := sortRing (ring r), nodeMap := (nodeMap r)(nodeId \<mapsto> {})\<rparr>"
  | (removed) nodeId where "c = RemoveNode nodeId" "r' = snd (removeNode r nodeId)"
proof (cases c)
  case (RemoveNode nodeId)
  then have "r' = snd (removeNode r nodeId)" using assms by simp
  with RemoveNode show ?thesis by (rule removed)
next
  case (AddNode nodeId w)
  then have step: "map_option snd (addNode D r nodeId w) = Some r'" using assms by simp
  show ?thesis
  proof (cases "nodeMap r nodeId")
    case (Some S)
    then have "nodeMap r nodeId \<noteq> None" by simp
    moreover from this have "r' = r" using step by (simp add: addNode_exists)
    ultimately show ?thesis using AddNode by (intro exists)
  next
    case None
    show ?thesis
    proof (cases "replicasForNode r w")
      case PosInfinity
      then show ?thesis using step None by (simp add: addNode_diverges)
    next
      case NegInfinity
      then show ?thesis using replicasForNode_NegInfinity by blast
    next
      case NaN
      then have "r' = r\<lparr>ring := sortRing (ring r), nodeMap := (nodeMap r)(nodeId \<mapsto> {})\<rparr>"
        using step None by (simp add: addNode_fresh loop_count_def)
      with AddNode None NaN show ?thesis by (rule ghost)
    next
      case (Num q)
      then obtain k where k: "1 \<le> k" "q = of_nat k" "loop_count (Num q) = k"
        using replicasForNode_Num by blast
      have "r' = r\<lparr>ring := sortRing (ring r @ map (placement D r nodeId) [0..<k]),
                nodeMap := (nodeMap r)(nodeId \<mapsto> vnodeId nodeId ` {0..<k})\<rparr>"
        using step None Num k(3) by (simp add: addNode_fresh)
      with AddNode None Num k(1,2) show ?thesis by (rule added)
    qed
  qed
qed

lemma replicas_apply_call: "apply_call D r c = Some r' \<Longrightarrow> replicas r' = replicas r"
proof (erule apply_call_cases)
  fix nodeId assume "r' = snd (removeNode r nodeId)"
  then show "replicas r' = replicas r"
    by (cases "nodeMap r nodeId") (simp_all add: removeNode_def)
qed simp_all

lemma populated_apply_call:
  assumes inv: "ringInvariant r"
    and pop: "\<forall>n\<in>dom (nodeMap r). \<exists>e\<in>set (ring r). node e = n"
    and step: "apply_call D r c = Some r'"
    and ok: "count_is_number (replicas r) c"
  shows "\<forall>n\<in>dom (nodeMap r'). \<exists>e\<in>set (ring r'). node e = n"
  using step
proof (cases rule: apply_call_cases)
  case (exists nodeId w)
  then show ?thesis using pop by simp
next
  case (added nodeId w q k)
  have ring': "set (ring r') = set (ring r) \<union> placement D r nodeId ` {0..<k}"
    and map': "dom (nodeMap r') = insert nodeId (dom (nodeMap r))"
    by (simp_all add: added(6))
  have "0 \<in> {0..<k}" using added(4) by simp
  then have "placement D r nodeId 0 \<in> set (ring r')" unfolding ring' by blast
  then have new: "\<exists>e\<in>set (ring r'). node e = nodeId" by (rule bexI[rotated]) simp
  have old: "\<exists>e\<in>set (ring r'). node e = n" if "n \<in> dom (nodeMap r)" for n
    using pop that unfolding ring' by blast
  show ?thesis unfolding map' using new old by blast
next
  case (ghost nodeId w)
  then show ?thesis using ok by (simp add: replicasForNode_def)
next
  case (removed nodeId)
  show ?thesis
  proof (cases "nodeMap r nodeId")
    case None
    then show ?thesis using removed pop by (simp add: removeNode_def)
  next
    case (Some S)
    then have r': "ring r' = filter (\<lambda>e. node e \<noteq> nodeId) (ring r)"
        "nodeMap r' = (nodeMap r)(nodeId := None)"
      using removed by (simp_all add: removeNode_def)
    show ?thesis
    proof
      fix n assume "n \<in> dom (nodeMap r')"
      then have n: "n \<noteq> nodeId" "n \<in> dom (nodeMap r)" using r'(2) by (auto split: if_splits)
      then obtain e where "e \<in> set (ring r)" "node e = n" using pop by blast
      then show "\<exists>e\<in>set (ring r'). node e = n" using n(1) r'(1) by auto
    qed
  qed
qed

lemma populated_run:
  assumes "ringInvariant r" and "\<forall>n\<in>dom (nodeMap r). \<exists>e\<in>set (ring r). node e = n"
    and "run D r calls = Some r'" and "list_all (count_is_number (replicas r)) calls"
  shows "\<forall>n\<in>dom (nodeMap r'). \<exists>e\<in>set (ring r'). node e = n"
  using assms
proof (induction calls arbitrary: r)
  case Nil
  then show ?case by simp
next
  case (Cons c cs)
  obtain r1 where r1: "apply_call D r c = Some r1" and rest: "run D r1 cs = Some r'"
    using Cons.prems(3) by (cases "apply_call D r c") simp_all
  have c: "count_is_number (replicas r) c" and cs: "list_all (count_is_number (replicas r)) cs"
    using Cons.prems(4) by simp_all
  have inv1: "ringInvariant r1"
    using Cons.prems(1) r1 by (rule ringInvariant_apply_call)
  have pop1: "\<forall>n\<in>dom (nodeMap r1). \<exists>e\<in>set (ring r1). node e = n"
    using Cons.prems(1,2) r1 c by (rule populated_apply_call)
  have "replicas r1 = replicas r" using r1 by (rule replicas_apply_call)
  then have cs1: "list_all (count_is_number (replicas r1)) cs" using cs by simp
  show ?case using inv1 pop1 rest cs1 by (rule Cons.IH)
qed

section \<open>Evaluation on the concrete rings\<close>

lemma replicasForNode_1_1: "replicas r = Num 1 \<Longrightarrow> replicasForNode r (Num 1) = Num 1"
proof -
  have "Math_max (Num 1) (Math_round (times_number (Num 1) (Num 1))) = Num 1"
    by code_simp
  then show "replicas r = Num 1 \<Longrightarrow> replicasForNode r (Num 1) = Num 1"
    by (simp only: replicasForNode_def)
qed

lemma replicasForNode_100_1: "replicas r = Num 100 \<Longrightarrow> replicasForNode r (Num 1) = Num 100"
proof -
  have "Math_max (Num 1) (Math_round (times_number (Num 100) (Num 1))) = Num 100"
    by code_simp
  then show "replicas r = Num 100 \<Longrightarrow> replicasForNode r (Num 1) = Num 100"
    by (simp only: replicasForNode_def)
qed

lemma replicasForNode_100_hundredth:
  "replicas r = Num 100 \<Longrightarrow> replicasForNode r (fl (1 / 100)) = Num 1"
proof -
  have "Math_max (Num 1) (Math_round (times_number (Num 100) (fl (1 / 100)))) = Num 1"
    by code_simp
  then show "replicas r = Num 100 \<Longrightarrow> replicasForNode r (fl (1 / 100)) = Num 1"
    by (simp only: replicasForNode_def)
qed

lemma round_100_negative:
  "less_eq_number (Math_round (times_number (Num 100) (Num (- 2)))) (Num 0)"
  by code_simp

lemma hashToBigInt_table:
  "hashToBigInt (table_digest tbl) r s =
     bigint_of_hex (take 16 (hexEncode
       (case map_of tbl s of Some bs \<Rightarrow> bs | None \<Rightarrow> [0, 0, 0, 0, 0, 0, 0, 0])))"
  by (simp add: hashToBigInt_def table_digest_def)

lemmas ring_eval =
  placement_def vnodeId_def string_of_nat.simps digitChar_def hashToBigInt_table hexEncode_def
  hexChar_def bigint_of_hex_def hexValue_def Let_def sortRing_def upt_rec atLeastLessThan_upt

lemma run_tie_ring: "run tie_digest (new_ring (Some (Num 1)) None) tie_calls = Some tie_ring"
  apply (simp add: tie_calls_def new_ring_def addNode_fresh replicasForNode_1_1 loop_count_def)
  apply (simp add: tie_ring_def tie_digest_def ring_eval)
  done

lemma run_demo_ring: "run demo_digest (new_ring (Some (Num 1)) None) demo_calls = Some demo_ring"
  apply (simp add: demo_calls_def new_ring_def addNode_fresh replicasForNode_1_1 loop_count_def)
  apply (simp add: demo_ring_def demo_digest_def ring_eval fun_upd_twist)
  done

lemma demo_calls_numbers: "list_all (count_is_number (replicas (new_ring (Some (Num 1)) None))) demo_calls"
  using replicasForNode_1_1[of "new_ring (Some (Num 1)) None"]
  by (simp add: demo_calls_def new_ring_def replicasForNode_def del: times_number.simps Math_round.simps Math_max.simps)

section \<open>The claims\<close>

text \<open>
  Claim C1. \<^verbatim>\<open>_binarySearch\<close> is to return the index of the first entry whose coordinate is
  at least the given one, as its own comment says. On the ring that five \<^verbatim>\<open>addNode\<close> calls
  build when the virtual nodes of \<^verbatim>\<open>b\<close> and \<^verbatim>\<open>c\<close> share the coordinate 5, the search for 5
  returns index 2, the entry the first probe of the loop hits, while the first entry at
  coordinate 5 is at index 1: \<^verbatim>\<open>getNode\<close> gives a key at coordinate 5 to \<^verbatim>\<open>c\<close>, not to \<^verbatim>\<open>b\<close>.
  The lemmas \<open>binarySearch_empty\<close> and \<open>binarySearch_sorted\<close> give the rest of the claim:
  \<open>-1\<close> on the empty ring, and on a sorted ring an index in range whose coordinate is that
  of the first entry at or after the given one, index 0 past the last entry, and the first
  such index itself when the coordinates are distinct.
\<close>

theorem binarySearch_tie_not_first:
  "run tie_digest (new_ring (Some (Num 1)) None) tie_calls = Some tie_ring \<and>
   sorted (map hash (ring tie_ring)) \<and>
   hashToBigInt tie_digest tie_ring ''k'' = 5 \<and>
   binarySearch tie_ring 5 = Inr 2 \<and>
   locateOwner (ring tie_ring) 5 = Some 1 \<and>
   hash (ring tie_ring ! 1) = 5 \<and>
   node (ring tie_ring ! 1) = ''b'' \<and>
   getNode tie_digest tie_ring ''k'' = Inr (Some ''c'')"
proof -
  have k: "hashToBigInt tie_digest tie_ring ''k'' = 5"
    by (simp add: tie_digest_def ring_eval)
  have b: "binarySearch tie_ring 5 = Inr 2"
    by (simp add: tie_ring_def binarySearch_def entryAt_def binarySearch_loop.simps)
  have "ring tie_ring \<noteq> []" "entryAt (ring tie_ring) 2 = Inr (ring tie_ring ! 2)"
    by (simp_all add: tie_ring_def entryAt_def)
  then have g: "getNode tie_digest tie_ring ''k'' = Inr (Some (node (ring tie_ring ! 2)))"
    using k b by (simp add: getNode_def)
  have "locateOwner (ring tie_ring) 5 = Some 1"
    by (simp add: tie_ring_def locateOwner_def)
  moreover have "sorted (map hash (ring tie_ring))" "hash (ring tie_ring ! 1) = 5"
      "node (ring tie_ring ! 1) = ''b''" "node (ring tie_ring ! 2) = ''c''"
    by (simp_all add: tie_ring_def)
  ultimately show ?thesis using run_tie_ring k b g by simp
qed

text \<open>
  Claim C2, as stated for every count, fails at the count 0.5: it is not \<open>\<le> 0\<close>, the loop
  test \<^verbatim>\<open>0 < 0.5\<close> holds once, and \<^verbatim>\<open>getNodes\<close> returns one node, more than \<open>count\<close>.
\<close>

theorem getNodes_half_count:
  "run demo_digest (new_ring (Some (Num 1)) None) demo_calls = Some demo_ring \<and>
   getNodes demo_digest demo_ring ''k'' (Num (1 / 2)) = Some (Inr [''a'']) \<and>
   \<not> rat_of_nat (length [''a'']) \<le> 1 / 2"
proof -
  have k: "hashToBigInt demo_digest demo_ring ''k'' = 7"
    by (simp add: demo_digest_def ring_eval)
  have b: "binarySearch demo_ring 7 = Inr 1"
    by (simp add: demo_ring_def binarySearch_def entryAt_def binarySearch_loop.simps)
  have "getNodes_loop (ring demo_ring) (Num (1 / 2)) 1 1 [] {} = Some (Inr [''a''])"
    by (simp add: demo_ring_def entryAt_def getNodes_loop.simps)
  then have "getNodes demo_digest demo_ring ''k'' (Num (1 / 2)) = Some (Inr [''a''])"
    using k b by (simp add: getNodes_def) (simp add: demo_ring_def)
  then show ?thesis using run_demo_ring by simp
qed

text \<open>
  Claim C2, amended. In every state reached from the empty ring, \<^verbatim>\<open>getNodes\<close> returns the
  empty sequence when \<open>count \<le> 0\<close> or the ring is empty; otherwise it returns the walk of
  the specification from the index \<^verbatim>\<open>_binarySearch\<close> gives for the key, which is the key's
  owner index when the coordinates of the ring are distinct: the nodes in ring order, each
  once, all of them registered, fewer than \<open>count + 1\<close> of them, so at most \<open>count\<close> for a
  whole \<open>count\<close>, and at most as many as there are registered nodes.
\<close>

theorem getNodes_walk:
  assumes "run D (new_ring rep hf) calls = Some r"
  shows "(ring r = [] \<or> less_eq_number count (Num 0) \<longrightarrow>
            getNodes D r key count = Some (Inr [])) \<and>
         (ring r \<noteq> [] \<and> \<not> less_eq_number count (Num 0) \<longrightarrow>
            (\<exists>idx res. binarySearch r (hashToBigInt D r key) = Inr (int idx) \<and>
               idx < length (ring r) \<and>
               (distinct (map hash (ring r)) \<longrightarrow>
                  locateOwner (ring r) (hashToBigInt D r key) = Some idx) \<and>
               getNodes D r key count = Some (Inr res) \<and>
               res = walkDistinctOwners (ring r) idx count \<and>
               distinct res \<and> set res \<subseteq> dom (nodeMap r) \<and>
               length res \<le> card (dom (nodeMap r)) \<and>
               (\<forall>q. count = Num q \<longrightarrow> rat_of_nat (length res) < q + 1) \<and>
               (\<forall>c. count = Num (of_int c) \<longrightarrow> int (length res) \<le> c)))"
proof (intro conjI impI)
  assume "ring r = [] \<or> less_eq_number count (Num 0)"
  then show "getNodes D r key count = Some (Inr [])" by (rule getNodes_trivial)
next
  assume a: "ring r \<noteq> [] \<and> \<not> less_eq_number count (Num 0)"
  have inv: "ringInvariant r" using assms by (rule reachable_invariant)
  then have srt: "sorted (map hash (ring r))" by (simp add: ringInvariant_def)
  obtain idx k where idx: "binarySearch r (hashToBigInt D r key) = Inr (int idx)"
      "idx < length (ring r)"
      and own: "locateOwner (ring r) (hashToBigInt D r key) = Some k"
      "distinct (map hash (ring r)) \<longrightarrow> idx = k"
    using binarySearch_sorted[OF srt, of "hashToBigInt D r key"] a by blast
  define res where "res = walkDistinctOwners (ring r) idx count"
  have get: "getNodes D r key count = Some (Inr res)"
    using a idx by (simp add: getNodes_nonempty res_def)
  have col: "res = collect count (map node (rotate idx (ring r))) []"
    by (simp add: res_def walkDistinctOwners_def collect_walk)
  have d: "distinct res" unfolding col by (rule collect_distinct) simp
  have "set res \<subseteq> set (map node (rotate idx (ring r)))"
    unfolding col using collect_set[of count "map node (rotate idx (ring r))" "[]"] by simp
  then have "set res \<subseteq> node ` set (ring r)" by simp
  moreover have "node ` set (ring r) \<subseteq> dom (nodeMap r)"
    using inv by (simp add: ringInvariant_def)
  ultimately have sub: "set res \<subseteq> dom (nodeMap r)" by (rule order_trans)
  have "finite (dom (nodeMap r))" using inv by (simp add: ringInvariant_def)
  then have "card (set res) \<le> card (dom (nodeMap r))" using sub by (intro card_mono)
  then have c: "length res \<le> card (dom (nodeMap r))" using d by (simp add: distinct_card)
  have frac: "\<forall>q. count = Num q \<longrightarrow> rat_of_nat (length res) < q + 1"
  proof (intro allI impI)
    fix q assume q: "count = Num q"
    then have "0 < q" using a by simp
    then show "rat_of_nat (length res) < q + 1"
      unfolding res_def walkDistinctOwners_def q by (rule length_take_count_Num)
  qed
  have whole: "\<forall>c. count = Num (of_int c) \<longrightarrow> int (length res) \<le> c"
  proof (intro allI impI)
    fix c assume q: "count = Num (of_int c)"
    then have "0 < c" using a by simp
    then show "int (length res) \<le> c"
      unfolding res_def walkDistinctOwners_def q by (rule length_take_count_whole)
  qed
  have loc: "distinct (map hash (ring r)) \<longrightarrow>
               locateOwner (ring r) (hashToBigInt D r key) = Some idx"
    using own by simp
  show "\<exists>idx res. binarySearch r (hashToBigInt D r key) = Inr (int idx) \<and>
               idx < length (ring r) \<and>
               (distinct (map hash (ring r)) \<longrightarrow>
                  locateOwner (ring r) (hashToBigInt D r key) = Some idx) \<and>
               getNodes D r key count = Some (Inr res) \<and>
               res = walkDistinctOwners (ring r) idx count \<and>
               distinct res \<and> set res \<subseteq> dom (nodeMap r) \<and>
               length res \<le> card (dom (nodeMap r)) \<and>
               (\<forall>q. count = Num q \<longrightarrow> rat_of_nat (length res) < q + 1) \<and>
               (\<forall>c. count = Num (of_int c) \<longrightarrow> int (length res) \<le> c)"
    using idx loc get res_def d sub c frac whole by blast
qed

theorem getNodes_walk_witness:
  "run demo_digest (new_ring (Some (Num 1)) None) demo_calls = Some demo_ring \<and>
   getNodes demo_digest demo_ring ''k'' (Num 0) = Some (Inr []) \<and>
   (\<exists>idx res. idx < length (ring demo_ring) \<and>
      locateOwner (ring demo_ring) (hashToBigInt demo_digest demo_ring ''k'') = Some idx \<and>
      getNodes demo_digest demo_ring ''k'' (Num 5) = Some (Inr res) \<and>
      res = walkDistinctOwners (ring demo_ring) idx (Num 5) \<and>
      distinct res \<and> int (length res) \<le> 5 \<and>
      length res \<le> card (dom (nodeMap demo_ring)))"
proof -
  have zero: "ring demo_ring = [] \<or> less_eq_number (Num 0) (Num 0)" by simp
  have five: "ring demo_ring \<noteq> [] \<and> \<not> less_eq_number (Num 5) (Num 0)"
    by (simp add: demo_ring_def)
  have dist: "distinct (map hash (ring demo_ring))" by (simp add: demo_ring_def)
  have n5: "Num 5 = Num (of_int 5)" by simp
  have empty: "getNodes demo_digest demo_ring ''k'' (Num 0) = Some (Inr [])"
    using getNodes_walk[OF run_demo_ring, of "Num 0" "''k''"] zero by blast
  obtain idx res where "idx < length (ring demo_ring)"
      "distinct (map hash (ring demo_ring)) \<longrightarrow>
         locateOwner (ring demo_ring) (hashToBigInt demo_digest demo_ring ''k'') = Some idx"
      "getNodes demo_digest demo_ring ''k'' (Num 5) = Some (Inr res)"
      "res = walkDistinctOwners (ring demo_ring) idx (Num 5)"
      "distinct res" "length res \<le> card (dom (nodeMap demo_ring))"
      "\<forall>c. Num 5 = Num (of_int c) \<longrightarrow> int (length res) \<le> c"
    using getNodes_walk[OF run_demo_ring, of "Num 5" "''k''"] five by blast
  then show ?thesis using run_demo_ring empty dist n5 by blast
qed

text \<open>
  Claim C3. In every state reached from the empty ring by \<^verbatim>\<open>addNode\<close> and \<^verbatim>\<open>removeNode\<close>
  calls the coordinates of the ring are non-decreasing, and the snapshot lists the entries
  in that order.
\<close>

theorem ring_sorted:
  assumes "run D (new_ring rep hf) calls = Some r"
  shows "sorted (map hash (ring r)) \<and>
         map snapshot_hash (getRingSnapshot r) = map (\<lambda>e. bigint_toString (hash e)) (ring r)"
  using reachable_invariant[OF assms] by (simp add: ringInvariant_def getRingSnapshot_def)

theorem ring_sorted_witness:
  "run demo_digest (new_ring (Some (Num 1)) None) demo_calls = Some demo_ring \<and>
   sorted (map hash (ring demo_ring)) \<and>
   map snapshot_hash (getRingSnapshot demo_ring) = map (\<lambda>e. bigint_toString (hash e)) (ring demo_ring)"
  using run_demo_ring ring_sorted[OF run_demo_ring] by simp

text \<open>
  Claim C4. In every state reached from the empty ring, \<^verbatim>\<open>getNode\<close> returns \<^verbatim>\<open>null\<close> exactly
  when the ring has no entry, and on a ring with entries it returns a node that is a key of
  the registry; it never throws.
\<close>

theorem getNode_registered:
  assumes "run D (new_ring rep hf) calls = Some r"
  shows "(getNode D r key = Inr None \<longleftrightarrow> ring r = []) \<and>
         (ring r \<noteq> [] \<longrightarrow> (\<exists>n. getNode D r key = Inr (Some n) \<and> n \<in> dom (nodeMap r)))"
proof (cases "ring r = []")
  case True
  then show ?thesis by (simp add: getNode_empty)
next
  case False
  have inv: "ringInvariant r" using assms by (rule reachable_invariant)
  obtain idx where idx: "binarySearch r (hashToBigInt D r key) = Inr (int idx)"
      "idx < length (ring r)"
    using False binarySearch_range by blast
  have get: "getNode D r key = Inr (Some (node (ring r ! idx)))"
    using False idx by (rule getNode_owner)
  have "node (ring r ! idx) \<in> node ` set (ring r)" using idx(2) by simp
  then have "node (ring r ! idx) \<in> dom (nodeMap r)"
    using inv unfolding ringInvariant_def by blast
  then show ?thesis using False get by simp
qed

theorem getNode_registered_witness:
  "run demo_digest (new_ring (Some (Num 1)) None) demo_calls = Some demo_ring \<and>
   ring demo_ring \<noteq> [] \<and>
   (\<exists>n. getNode demo_digest demo_ring ''k'' = Inr (Some n) \<and> n \<in> dom (nodeMap demo_ring))"
proof -
  have ne: "ring demo_ring \<noteq> []" by (simp add: demo_ring_def)
  show ?thesis
    using run_demo_ring getNode_registered[OF run_demo_ring, of "''k''"] ne by simp
qed

text \<open>
  Claim C5, as stated for every weight, fails at the weight \<^verbatim>\<open>NaN\<close>: the replica count
  \<^verbatim>\<open>Math.max(1, Math.round(100 * NaN))\<close> is \<^verbatim>\<open>NaN\<close>, the loop test \<^verbatim>\<open>0 < NaN\<close> is false,
  and the node is registered with no placement entry at all.
\<close>

theorem addNode_NaN_no_entry:
  "replicasForNode (new_ring None None) NaN = NaN \<and>
   addNode demo_digest (new_ring None None) ''a'' NaN =
     Some (Inr (), \<lparr>replicas = Num 100, hashFn = ''md5'', ring = [], nodeMap = [''a'' \<mapsto> {}]\<rparr>)"
proof -
  have n: "replicasForNode (new_ring None None) NaN = NaN"
    by (simp add: replicasForNode_def new_ring_def)
  have "nodeMap (new_ring None None) ''a'' = None" by (simp add: new_ring_def)
  then show ?thesis
    using n by (simp add: addNode_fresh loop_count_def) (simp add: new_ring_def sortRing_def)
qed

text \<open>
  Claim C5, amended. For every fresh node id and every weight whose replica count
  \<^verbatim>\<open>Math.max(1, Math.round(replicas * weight))\<close> is a finite number, that count is a whole
  number \<open>k \<ge> 1\<close> and \<^verbatim>\<open>addNode\<close> returns with exactly \<open>k\<close> new entries, \<^verbatim>\<open>nodeId#0\<close> to
  \<^verbatim>\<open>nodeId#(k-1)\<close>, each at the coordinate its virtual id hashes to, sorted into the ring,
  and registers these virtual ids; with 100 replicas the weight 1 gives 100 entries and the
  weight 0.01 gives one.
\<close>

theorem addNode_replica_count:
  assumes "nodeMap r nodeId = None" and "replicasForNode r w = Num q"
  shows "\<exists>k r'. 1 \<le> k \<and> q = of_nat k \<and>
           addNode D r nodeId w = Some (Inr (), r') \<and>
           ring r' = sortRing (ring r @
             map (\<lambda>i. \<lparr>hash = hashToBigInt D r (nodeId @ ''#'' @ string_of_nat i),
                       vnode = nodeId @ ''#'' @ string_of_nat i, node = nodeId\<rparr>) [0..<k]) \<and>
           length (ring r') = length (ring r) + k \<and>
           nodeMap r' = (nodeMap r)(nodeId \<mapsto> (\<lambda>i. nodeId @ ''#'' @ string_of_nat i) ` {0..<k}) \<and>
           (replicas r = Num 100 \<and> w = Num 1 \<longrightarrow> k = 100) \<and>
           (replicas r = Num 100 \<and> w = fl (1 / 100) \<longrightarrow> k = 1)"
proof -
  obtain k where k: "1 \<le> k" "q = of_nat k" "loop_count (Num q) = k"
    using assms(2) replicasForNode_Num by blast
  define r' where "r' = r\<lparr>ring := sortRing (ring r @ map (placement D r nodeId) [0..<k]),
                          nodeMap := (nodeMap r)(nodeId \<mapsto> vnodeId nodeId ` {0..<k})\<rparr>"
  have add: "addNode D r nodeId w = Some (Inr (), r')"
    using assms k(3) by (simp add: addNode_fresh r'_def)
  have pl: "placement D r nodeId = (\<lambda>i. \<lparr>hash = hashToBigInt D r (nodeId @ ''#'' @ string_of_nat i),
                       vnode = nodeId @ ''#'' @ string_of_nat i, node = nodeId\<rparr>)"
    by (simp add: placement_def vnodeId_def fun_eq_iff)
  have vn: "vnodeId nodeId = (\<lambda>i. nodeId @ ''#'' @ string_of_nat i)"
    by (simp add: vnodeId_def fun_eq_iff)
  have ex1: "k = 100" if "replicas r = Num 100 \<and> w = Num 1"
  proof -
    have "replicasForNode r w = Num 100" using that by (simp add: replicasForNode_100_1)
    then have "q = 100" using assms(2) by simp
    then show ?thesis using k(2) by simp
  qed
  have ex2: "k = 1" if "replicas r = Num 100 \<and> w = fl (1 / 100)"
  proof -
    have "replicasForNode r w = Num 1" using that by (simp add: replicasForNode_100_hundredth)
    then have "q = 1" using assms(2) by simp
    then show ?thesis using k(2) by simp
  qed
  have "ring r' = sortRing (ring r @ map (placement D r nodeId) [0..<k])"
    and "length (ring r') = length (ring r) + k"
    and "nodeMap r' = (nodeMap r)(nodeId \<mapsto> vnodeId nodeId ` {0..<k})"
    by (simp_all add: r'_def)
  then show ?thesis
    unfolding pl vn using k(1,2) add ex1 ex2 by blast
qed

theorem addNode_replica_count_witness:
  "nodeMap (new_ring None None) ''a'' = None \<and>
   replicasForNode (new_ring None None) (fl (1 / 100)) = Num 1 \<and>
   (\<exists>r'. addNode demo_digest (new_ring None None) ''a'' (fl (1 / 100)) = Some (Inr (), r') \<and>
      length (ring r') = length (ring (new_ring None None)) + 1)"
proof -
  have f: "nodeMap (new_ring None None) ''a'' = None" by (simp add: new_ring_def)
  have n: "replicasForNode (new_ring None None) (fl (1 / 100)) = Num 1"
    by (rule replicasForNode_100_hundredth) (simp add: new_ring_def)
  have rep: "replicas (new_ring None None) = Num 100" by (simp add: new_ring_def)
  obtain k r' where "addNode demo_digest (new_ring None None) ''a'' (fl (1 / 100)) = Some (Inr (), r')"
      "length (ring r') = length (ring (new_ring None None)) + k"
      "replicas (new_ring None None) = Num 100 \<and> fl (1 / 100) = fl (1 / 100) \<longrightarrow> k = 1"
    using addNode_replica_count[OF f n, of demo_digest] by blast
  then show ?thesis using f n rep by auto
qed

text \<open>
  Claim C6. On a node id that is registered, \<^verbatim>\<open>addNode\<close> throws the "already exists" error
  and leaves the state, ring and registry, as it was.
\<close>

theorem addNode_duplicate:
  assumes "nodeMap r nodeId \<noteq> None"
  shows "addNode D r nodeId w = Some (Inl (NodeExists nodeId), r)"
  using assms by (rule addNode_exists)

theorem addNode_duplicate_witness:
  "nodeMap demo_ring ''a'' \<noteq> None \<and>
   addNode demo_digest demo_ring ''a'' (Num 2) = Some (Inl (NodeExists ''a''), demo_ring)"
proof -
  have h: "nodeMap demo_ring ''a'' \<noteq> None" by (simp add: demo_ring_def)
  show ?thesis using h addNode_duplicate[OF h] by simp
qed

text \<open>
  Claim C7. \<^verbatim>\<open>removeNode\<close> of an unknown id returns false and leaves the state as it was.
  Of a registered id it returns true, drops exactly the entries of that node and the
  registry entry, so that no snapshot entry has the node; a following \<^verbatim>\<open>addNode\<close> of the id
  never throws, whatever the weight, and returns normally whenever its loop ends, that is
  unless the replica count is \<^verbatim>\<open>Infinity\<close>.
\<close>

theorem removeNode_frees:
  "(nodeMap r nodeId = None \<longrightarrow> removeNode r nodeId = (False, r)) \<and>
   (nodeMap r nodeId \<noteq> None \<longrightarrow>
      (\<exists>r'. removeNode r nodeId = (True, r') \<and>
         ring r' = filter (\<lambda>entry. node entry \<noteq> nodeId) (ring r) \<and>
         nodeMap r' = (nodeMap r)(nodeId := None) \<and>
         nodeId \<notin> snapshot_node ` set (getRingSnapshot r') \<and>
         (\<forall>w e s. addNode D r' nodeId w \<noteq> Some (Inl e, s)) \<and>
         (\<forall>w. replicasForNode r' w \<noteq> PosInfinity \<longrightarrow>
            (\<exists>r''. addNode D r' nodeId w = Some (Inr (), r'')))))"
proof (intro conjI impI)
  assume "nodeMap r nodeId = None"
  then show "removeNode r nodeId = (False, r)" by (simp add: removeNode_def)
next
  assume "nodeMap r nodeId \<noteq> None"
  then obtain S where S: "nodeMap r nodeId = Some S" by blast
  define r' where "r' = r\<lparr>ring := filter (\<lambda>entry. node entry \<noteq> nodeId) (ring r),
                          nodeMap := (nodeMap r)(nodeId := None)\<rparr>"
  have rem: "removeNode r nodeId = (True, r')" using S by (simp add: removeNode_def r'_def)
  have free: "nodeMap r' nodeId = None" by (simp add: r'_def)
  have snap: "nodeId \<notin> snapshot_node ` set (getRingSnapshot r')"
    by (auto simp: getRingSnapshot_def r'_def)
  have noerr: "\<forall>w e s. addNode D r' nodeId w \<noteq> Some (Inl e, s)"
    using free by (simp add: addNode_fresh_no_error)
  have succ: "\<forall>w. replicasForNode r' w \<noteq> PosInfinity \<longrightarrow>
                (\<exists>r''. addNode D r' nodeId w = Some (Inr (), r''))"
    using free by (simp add: addNode_fresh)
  have "ring r' = filter (\<lambda>entry. node entry \<noteq> nodeId) (ring r)"
    and "nodeMap r' = (nodeMap r)(nodeId := None)"
    by (simp_all add: r'_def)
  then show "\<exists>r'. removeNode r nodeId = (True, r') \<and>
         ring r' = filter (\<lambda>entry. node entry \<noteq> nodeId) (ring r) \<and>
         nodeMap r' = (nodeMap r)(nodeId := None) \<and>
         nodeId \<notin> snapshot_node ` set (getRingSnapshot r') \<and>
         (\<forall>w e s. addNode D r' nodeId w \<noteq> Some (Inl e, s)) \<and>
         (\<forall>w. replicasForNode r' w \<noteq> PosInfinity \<longrightarrow>
            (\<exists>r''. addNode D r' nodeId w = Some (Inr (), r'')))"
    using rem snap noerr succ by blast
qed

theorem removeNode_frees_witness:
  "removeNode demo_ring ''z'' = (False, demo_ring) \<and>
   (\<exists>r'. removeNode demo_ring ''a'' = (True, r') \<and>
      ring r' = [\<lparr>hash = 4, vnode = ''b#0'', node = ''b''\<rparr>] \<and>
      ''a'' \<notin> snapshot_node ` set (getRingSnapshot r') \<and>
      (\<exists>r''. addNode demo_digest r' ''a'' (Num 1) = Some (Inr (), r'')))"
proof -
  have z: "nodeMap demo_ring ''z'' = None" and a: "nodeMap demo_ring ''a'' \<noteq> None"
    by (simp_all add: demo_ring_def)
  have fin: "replicasForNode r' (Num 1) \<noteq> PosInfinity" if "replicas r' = Num 1" for r'
    using replicasForNode_1_1[OF that] by simp
  obtain r' where r': "removeNode demo_ring ''a'' = (True, r')"
      "ring r' = filter (\<lambda>entry. node entry \<noteq> ''a'') (ring demo_ring)"
      "''a'' \<notin> snapshot_node ` set (getRingSnapshot r')"
      "\<forall>w. replicasForNode r' w \<noteq> PosInfinity \<longrightarrow>
            (\<exists>r''. addNode demo_digest r' ''a'' w = Some (Inr (), r''))"
    using removeNode_frees[of demo_ring "''a''" demo_digest] a by blast
  have "replicas r' = Num 1"
    using r'(1) by (auto simp: removeNode_def demo_ring_def)
  then have "\<exists>r''. addNode demo_digest r' ''a'' (Num 1) = Some (Inr (), r'')"
    using r'(4) fin by blast
  moreover have "ring r' = [\<lparr>hash = 4, vnode = ''b#0'', node = ''b''\<rparr>]"
    using r'(2) by (simp add: demo_ring_def)
  moreover have "removeNode demo_ring ''z'' = (False, demo_ring)"
    using removeNode_frees[of demo_ring "''z''" demo_digest] z by blast
  ultimately show ?thesis using r'(1,3) by blast
qed

text \<open>
  Claim C8, as stated for any sequence of calls, fails after \<^verbatim>\<open>addNode('a', NaN)\<close> on the
  empty ring: the registry has the key \<^verbatim>\<open>a\<close> and the ring has no entry.
\<close>

theorem ghost_node:
  "run demo_digest (new_ring None None) [AddNode ''a'' NaN] =
     Some \<lparr>replicas = Num 100, hashFn = ''md5'', ring = [], nodeMap = [''a'' \<mapsto> {}]\<rparr> \<and>
   node ` set (ring \<lparr>replicas = Num 100, hashFn = ''md5'', ring = [], nodeMap = [''a'' \<mapsto> {}]\<rparr>) = {} \<and>
   dom (nodeMap \<lparr>replicas = Num 100, hashFn = ''md5'', ring = [], nodeMap = [''a'' \<mapsto> {}]\<rparr>) = {''a''}"
proof -
  have n: "replicasForNode (new_ring None None) NaN = NaN"
    by (simp add: replicasForNode_def new_ring_def)
  have "nodeMap (new_ring None None) ''a'' = None" by (simp add: new_ring_def)
  then have "addNode demo_digest (new_ring None None) ''a'' NaN =
     Some (Inr (), \<lparr>replicas = Num 100, hashFn = ''md5'', ring = [], nodeMap = [''a'' \<mapsto> {}]\<rparr>)"
    using n by (simp add: addNode_fresh loop_count_def) (simp add: new_ring_def sortRing_def)
  then show ?thesis by simp
qed

text \<open>
  Claim C8, amended. After any sequence of calls from the empty ring in which no
  \<^verbatim>\<open>addNode\<close> has a replica count \<^verbatim>\<open>NaN\<close>, the nodes of the ring's entries are exactly the
  keys of the registry, and every registered node has at least one entry.
\<close>

theorem registry_matches_ring:
  assumes "run D (new_ring rep hf) calls = Some r"
    and "list_all (count_is_number (replicas (new_ring rep hf))) calls"
  shows "node ` set (ring r) = dom (nodeMap r) \<and>
         (\<forall>n\<in>dom (nodeMap r). \<exists>e\<in>set (ring r). node e = n)"
proof -
  have inv: "ringInvariant r" using assms(1) by (rule reachable_invariant)
  have "\<forall>n\<in>dom (nodeMap (new_ring rep hf)). \<exists>e\<in>set (ring (new_ring rep hf)). node e = n"
    by (simp add: new_ring_def)
  with ringInvariant_new_ring
  have pop: "\<forall>n\<in>dom (nodeMap r). \<exists>e\<in>set (ring r). node e = n"
    using assms by (rule populated_run)
  have "node ` set (ring r) \<subseteq> dom (nodeMap r)" using inv by (simp add: ringInvariant_def)
  moreover have "dom (nodeMap r) \<subseteq> node ` set (ring r)" using pop by force
  ultimately show ?thesis using pop by blast
qed

theorem registry_matches_ring_witness:
  "run demo_digest (new_ring (Some (Num 1)) None) demo_calls = Some demo_ring \<and>
   list_all (count_is_number (replicas (new_ring (Some (Num 1)) None))) demo_calls \<and>
   node ` set (ring demo_ring) = dom (nodeMap demo_ring) \<and>
   node ` set (ring demo_ring) = {''a'', ''b''}"
proof -
  have "node ` set (ring demo_ring) = {''a'', ''b''}" by (auto simp: demo_ring_def)
  then show ?thesis
    using run_demo_ring demo_calls_numbers
      registry_matches_ring[OF run_demo_ring demo_calls_numbers]
    by simp
qed

text \<open>
  Claim C9. On a ring with entries and for a count of at least one, the first node that
  \<^verbatim>\<open>getNodes\<close> returns is the node that \<^verbatim>\<open>getNode\<close> returns.
\<close>

theorem getNodes_primary:
  assumes "ring r \<noteq> []" and "less_eq_number (Num 1) count"
  shows "\<exists>n rest. getNode D r key = Inr (Some n) \<and> getNodes D r key count = Some (Inr (n # rest))"
proof -
  have pos: "less_number (Num 0) count" and nz: "\<not> less_eq_number count (Num 0)"
    using assms(2) by (cases count; simp)+
  obtain idx where idx: "binarySearch r (hashToBigInt D r key) = Inr (int idx)"
      "idx < length (ring r)"
    using assms(1) binarySearch_range by blast
  let ?n = "node (ring r ! idx)"
  have get: "getNode D r key = Inr (Some ?n)" using assms(1) idx by (rule getNode_owner)
  have "hd (rotate idx (ring r)) = ring r ! idx"
    using assms(1) idx(2) by (simp add: hd_rotate_conv_nth)
  moreover have "rotate idx (ring r) \<noteq> []" using assms(1) by simp
  ultimately obtain tl where rot: "rotate idx (ring r) = (ring r ! idx) # tl"
    by (cases "rotate idx (ring r)") auto
  obtain ys where "collect count (map node tl) [?n] = [?n] @ ys"
    using collect_prefix by blast
  then have "collect count (map node (rotate idx (ring r))) [] = ?n # ys"
    using pos rot by simp
  then have "walkDistinctOwners (ring r) idx count = ?n # ys"
    by (simp add: walkDistinctOwners_def collect_walk)
  then have "getNodes D r key count = Some (Inr (?n # ys))"
    using assms(1) nz idx by (simp add: getNodes_nonempty)
  then show ?thesis using get by blast
qed

theorem getNodes_primary_witness:
  "ring demo_ring \<noteq> [] \<and> less_eq_number (Num 1) (Num 2) \<and>
   (\<exists>n rest. getNode demo_digest demo_ring ''k'' = Inr (Some n) \<and>
      getNodes demo_digest demo_ring ''k'' (Num 2) = Some (Inr (n # rest)))"
proof -
  have ne: "ring demo_ring \<noteq> []" by (simp add: demo_ring_def)
  have c: "less_eq_number (Num 1) (Num 2)" by simp
  show ?thesis using ne c getNodes_primary[OF ne c] by blast
qed

text \<open>
  Claim C10. For a fresh node id and a weight with \<^verbatim>\<open>Math.round(replicas * weight) <= 0\<close>,
  zero and negative weights among them, \<^verbatim>\<open>addNode\<close> returns normally with exactly one new
  entry, \<^verbatim>\<open>nodeId#0\<close>; and for a fresh node id it throws for no weight at all.
\<close>

theorem addNode_clamps_weight:
  assumes "nodeMap r nodeId = None"
    and "less_eq_number (Math_round (times_number (replicas r) w)) (Num 0)"
  shows "(\<exists>r'. addNode D r nodeId w = Some (Inr (), r') \<and>
            ring r' = sortRing (ring r @ [placement D r nodeId 0]) \<and>
            length (ring r') = length (ring r) + 1 \<and>
            nodeMap r' = (nodeMap r)(nodeId \<mapsto> {vnodeId nodeId 0})) \<and>
         (\<forall>w' e s. addNode D r nodeId w' \<noteq> Some (Inl e, s))"
proof -
  have "replicasForNode r w = Num 1"
  proof (cases "Math_round (times_number (replicas r) w)")
    case (Num a)
    then have "a \<le> 0" using assms(2) by simp
    then show ?thesis using Num by (simp add: replicasForNode_def)
  qed (use assms(2) in \<open>simp_all add: replicasForNode_def\<close>)
  then have "addNode D r nodeId w =
      Some (Inr (), r\<lparr>ring := sortRing (ring r @ [placement D r nodeId 0]),
                      nodeMap := (nodeMap r)(nodeId \<mapsto> {vnodeId nodeId 0})\<rparr>)"
    using assms(1) by (simp add: addNode_fresh loop_count_def)
  moreover have "\<forall>w' e s. addNode D r nodeId w' \<noteq> Some (Inl e, s)"
    using assms(1) by (simp add: addNode_fresh_no_error)
  ultimately show ?thesis by simp
qed

theorem addNode_clamps_weight_witness:
  "nodeMap (new_ring None None) ''a'' = None \<and>
   less_eq_number (Math_round (times_number (replicas (new_ring None None)) (Num (- 2)))) (Num 0) \<and>
   (\<exists>r'. addNode demo_digest (new_ring None None) ''a'' (Num (- 2)) = Some (Inr (), r') \<and>
      length (ring r') = length (ring (new_ring None None)) + 1)"
proof -
  have f: "nodeMap (new_ring None None) ''a'' = None" by (simp add: new_ring_def)
  have "replicas (new_ring None None) = Num 100" by (simp add: new_ring_def)
  then have n: "less_eq_number (Math_round (times_number (replicas (new_ring None None)) (Num (- 2)))) (Num 0)"
    using round_100_negative by (simp only:)
  show ?thesis using f n addNode_clamps_weight[OF f n, of demo_digest] by blast
qed

end
